theory Spec2Isabelle
  imports Main "HOL-Library.Word"
begin

section \<open>Restore side: the statement stream reader (source.go)\<close>

subsection \<open>The string helpers of Go's standard library that the reader calls\<close>

text \<open>
  A Go string is a sequence of bytes, modelled as a \<open>string\<close> (a list of 8-bit
  characters).  \<open>HasPrefix\<close>, \<open>HasSuffix\<close>, \<open>TrimPrefix\<close>, \<open>TrimSuffix\<close> and \<open>Index\<close>
  are the functions of package \<open>strings\<close> with the argument order of Go.
\<close>

definition HasPrefix :: "string \<Rightarrow> string \<Rightarrow> bool" where
  "HasPrefix s p = (take (length p) s = p)"

definition HasSuffix :: "string \<Rightarrow> string \<Rightarrow> bool" where
  "HasSuffix s p = (length p \<le> length s \<and> drop (length s - length p) s = p)"

definition TrimPrefix :: "string \<Rightarrow> string \<Rightarrow> string" where
  "TrimPrefix s p = (if HasPrefix s p then drop (length p) s else s)"

definition TrimSuffix :: "string \<Rightarrow> string \<Rightarrow> string" where
  "TrimSuffix s p = (if HasSuffix s p then take (length s - length p) s else s)"

text \<open>\<open>strings.Index\<close>: the byte offset of the first occurrence, \<open>-1\<close> when there is none.\<close>

fun index_from :: "nat \<Rightarrow> string \<Rightarrow> string \<Rightarrow> int" where
  "index_from i [] sub = (if sub = [] then int i else - 1)"
| "index_from i (c # cs) sub =
     (if HasPrefix (c # cs) sub then int i else index_from (Suc i) cs sub)"

definition Index :: "string \<Rightarrow> string \<Rightarrow> int" where
  "Index s sub = index_from 0 s sub"

text \<open>\<open>strings.TrimLeft(s, cutset)\<close> for a cutset of ASCII bytes.\<close>

definition TrimLeft :: "string \<Rightarrow> string \<Rightarrow> string" where
  "TrimLeft s cutset = dropWhile (\<lambda>c. c \<in> set cutset) s"

text \<open>
  \<open>strings.TrimSpace\<close> removes the leading and trailing runes for which
  \<open>unicode.IsSpace\<close> holds.  On bytes these are the UTF-8 encodings of
  U+0009..U+000D, U+0020, U+0085, U+00A0, U+1680, U+2000..U+200A, U+2028, U+2029,
  U+202F, U+205F and U+3000; a byte sequence that is not valid UTF-8 decodes to
  U+FFFD, which is not a space.
\<close>

definition space_encodings :: "string list" where
  "space_encodings =
     [[CHR 0x09], [CHR 0x0A], [CHR 0x0B], [CHR 0x0C], [CHR 0x0D], [CHR 0x20],
      [CHR 0xC2, CHR 0x85], [CHR 0xC2, CHR 0xA0],
      [CHR 0xE1, CHR 0x9A, CHR 0x80],
      [CHR 0xE2, CHR 0x80, CHR 0x80], [CHR 0xE2, CHR 0x80, CHR 0x81],
      [CHR 0xE2, CHR 0x80, CHR 0x82], [CHR 0xE2, CHR 0x80, CHR 0x83],
      [CHR 0xE2, CHR 0x80, CHR 0x84], [CHR 0xE2, CHR 0x80, CHR 0x85],
      [CHR 0xE2, CHR 0x80, CHR 0x86], [CHR 0xE2, CHR 0x80, CHR 0x87],
      [CHR 0xE2, CHR 0x80, CHR 0x88], [CHR 0xE2, CHR 0x80, CHR 0x89],
      [CHR 0xE2, CHR 0x80, CHR 0x8A],
      [CHR 0xE2, CHR 0x80, CHR 0xA8], [CHR 0xE2, CHR 0x80, CHR 0xA9],
      [CHR 0xE2, CHR 0x80, CHR 0xAF],
      [CHR 0xE2, CHR 0x81, CHR 0x9F],
      [CHR 0xE3, CHR 0x80, CHR 0x80]]"

text \<open>The length in bytes of the space rune that \<open>s\<close> starts with (\<open>0\<close>: none).\<close>

definition leading_space :: "string list \<Rightarrow> string \<Rightarrow> nat" where
  "leading_space encs s =
     (case find (\<lambda>e. e \<noteq> [] \<and> HasPrefix s e) encs of None \<Rightarrow> 0 | Some e \<Rightarrow> length e)"

function strip_leading :: "string list \<Rightarrow> string \<Rightarrow> string" where
  "strip_leading encs s =
     (if leading_space encs s = 0 then s
      else strip_leading encs (drop (leading_space encs s) s))"
  by pat_completeness auto

lemma leading_space_le: "leading_space encs s \<le> length s"
  by (auto simp: leading_space_def HasPrefix_def find_Some_iff split: option.splits)
     (metis length_take min.cobounded1)

termination strip_leading
proof (relation "measure (\<lambda>(encs, s). length s)")
  show "wf (measure (\<lambda>(encs, s). length s))" by simp
next
  fix encs :: "string list" and s :: string
  assume "leading_space encs s \<noteq> 0"
  moreover have "leading_space encs s \<le> length s" by (rule leading_space_le)
  ultimately show "((encs, drop (leading_space encs s) s), (encs, s))
        \<in> measure (\<lambda>(encs, s). length s)"
    by simp
qed

declare strip_leading.simps [simp del]

definition TrimSpace :: "string \<Rightarrow> string" where
  "TrimSpace s =
     rev (strip_leading (map rev space_encodings) (rev (strip_leading space_encodings s)))"

text \<open>\<open>trim\<close> (source.go, lines 225-229).\<close>

definition trim :: "string \<Rightarrow> string" where
  "trim s = TrimSpace (TrimLeft s [CHR 0x0A])"


subsection \<open>Reading one statement\<close>

text \<open>
  \<open>bufio.Reader.ReadString(delim)\<close> on the bytes that are still unread: the bytes up to
  and including the first \<open>delim\<close>, or, when there is none, everything that is left together
  with \<open>io.EOF\<close>.  The result is the line, the bytes left unread, and whether \<open>io.EOF\<close>
  was returned.  The reader is a finite byte string; read errors other than \<open>io.EOF\<close> do
  not occur in it.
\<close>

definition ReadString :: "char \<Rightarrow> string \<Rightarrow> string \<times> string \<times> bool" where
  "ReadString delim inp =
     (if delim \<in> set inp
      then (takeWhile (\<lambda>c. c \<noteq> delim) inp @ [delim],
            tl (dropWhile (\<lambda>c. c \<noteq> delim) inp), False)
      else (inp, [], True))"

subsection \<open>The executor\<close>

text \<open>
  The database behind \<open>sql.DB\<close> is a parameter: \<open>open_error\<close> is what \<open>sql.Open\<close> returns,
  and \<open>respond history query\<close> is the error (if any) with which the server answers \<open>query\<close>
  after the statements of \<open>history\<close>.
\<close>

record sqlDB =
  open_error :: "string option"
  respond :: "string list \<Rightarrow> string \<Rightarrow> string option"

record sourceOption =
  o_dryRun :: bool
  o_mergeInsert :: int
  o_debug :: bool

definition WithDryRun :: "sourceOption \<Rightarrow> sourceOption" where
  "WithDryRun opt = opt\<lparr>o_dryRun := True\<rparr>"

definition WithMergeInsert :: "int \<Rightarrow> sourceOption \<Rightarrow> sourceOption" where
  "WithMergeInsert n opt = opt\<lparr>o_mergeInsert := n\<rparr>"

definition WithDebug :: "sourceOption \<Rightarrow> sourceOption" where
  "WithDebug opt = opt\<lparr>o_debug := True\<rparr>"

record dbWrapper =
  DB :: sqlDB
  w_debug :: bool
  w_dryRun :: bool

definition newDBWrapper :: "sqlDB \<Rightarrow> bool \<Rightarrow> bool \<Rightarrow> dbWrapper" where
  "newDBWrapper db dry dbg = \<lparr>DB = db, w_debug = dbg, w_dryRun = dry\<rparr>"

text \<open>
  \<open>dbWrapper.Exec\<close> (lines 57-66).  The state is the list of the queries handed to the
  wrapper so far, oldest first; the result is the new list and the error.  In dry-run mode
  the query is not sent and the call succeeds.
\<close>

definition Exec :: "dbWrapper \<Rightarrow> string \<Rightarrow> string list \<Rightarrow> string list \<times> string option" where
  "Exec w query dispatched =
     (dispatched @ [query],
      if w_dryRun w then None else respond (DB w) dispatched query)"

subsection \<open>Merging\<close>

text \<open>
  \<open>mergeInsert\<close> (lines 198-223).  \<open>merge_rest n i rest b\<close> is the loop over
  \<open>insertSQLs[1:]\<close> with \<open>n = len(insertSQLs)\<close>, loop index \<open>i\<close> and builder contents \<open>b\<close>.
\<close>

fun merge_rest :: "nat \<Rightarrow> nat \<Rightarrow> string list \<Rightarrow> string \<Rightarrow> string + string" where
  "merge_rest n i [] b = Inr (b @ '';'')"
| "merge_rest n i (insertSQL # rest) b =
     (let b1 = (if int i < int n - 1 then b @ '','' else b);
          valuesIdx = Index insertSQL ''VALUES''
      in if valuesIdx = - 1 then Inl ''invalid SQL: missing VALUES keyword''
         else let sqln = drop (nat valuesIdx) insertSQL;
                  sqln = TrimPrefix sqln ''VALUES'';
                  sqln = TrimSuffix sqln '';''
              in merge_rest n (Suc i) rest (b1 @ sqln))"

definition mergeInsert :: "string list \<Rightarrow> string + string" where
  "mergeInsert insertSQLs =
     (case insertSQLs of
        [] \<Rightarrow> Inl ''no input provided''
      | sql1 # rest \<Rightarrow> merge_rest (length insertSQLs) 0 rest (TrimSuffix sql1 '';''))"

subsection \<open>The statement loop of \<open>Source\<close>\<close>

text \<open>
  \<open>accumulate k inp insertSQLs\<close> is the inner loop (lines 141-159) with \<open>k\<close> iterations
  left: it returns the statements collected and the bytes left unread.  A statement that
  does not start with \<open>INSERT INTO\<close> ends the loop; it has been read, and it is appended
  nowhere.
\<close>

fun accumulate :: "nat \<Rightarrow> string \<Rightarrow> string list \<Rightarrow> string list \<times> string" where
  "accumulate 0 inp insertSQLs = (insertSQLs, inp)"
| "accumulate (Suc k) inp insertSQLs =
     (case ReadString (CHR '';'') inp of
        (line, rest, eof) \<Rightarrow>
          if eof then (insertSQLs, rest)
          else let ssql2 = trim line
               in if HasPrefix ssql2 ''INSERT INTO''
                  then accumulate k rest (insertSQLs @ [ssql2])
                  else (insertSQLs, rest))"

lemma ReadString_shorter:
  "ReadString d inp = (line, rest, False) \<Longrightarrow> length rest < length inp"
proof -
  assume r: "ReadString d inp = (line, rest, False)"
  then have mem: "d \<in> set inp" and rest: "rest = tl (dropWhile (\<lambda>c. c \<noteq> d) inp)"
    by (auto simp: ReadString_def split: if_splits)
  from mem have ne: "dropWhile (\<lambda>c. c \<noteq> d) inp \<noteq> []" by simp
  have "length (dropWhile (\<lambda>c. c \<noteq> d) inp) \<le> length inp"
    by (rule length_dropWhile_le)
  with ne rest show ?thesis by (cases "dropWhile (\<lambda>c. c \<noteq> d) inp") auto
qed

lemma ReadString_eof_rest:
  "ReadString d inp = (line, rest, True) \<Longrightarrow> rest = []"
  by (auto simp: ReadString_def split: if_splits)

lemma accumulate_length:
  "length (snd (accumulate k inp acc)) \<le> length inp"
proof (induction k arbitrary: inp acc)
  case 0
  then show ?case by simp
next
  case (Suc k)
  obtain line rest eof where r: "ReadString (CHR '';'') inp = (line, rest, eof)"
    by (cases "ReadString (CHR '';'') inp") auto
  show ?case
  proof (cases eof)
    case True
    with r have "rest = []" by (simp add: ReadString_eof_rest)
    with r True show ?thesis by simp
  next
    case False
    with r have lt: "length rest < length inp" by (simp add: ReadString_shorter)
    have "length (snd (accumulate k rest (acc @ [trim line]))) \<le> length rest"
      by (rule Suc.IH)
    with lt r False show ?thesis by (simp add: Let_def)
  qed
qed

text \<open>
  \<open>source_loop w M inp dispatched\<close> is the \<open>for\<close> loop of \<open>Source\<close> (lines 124-173) with
  \<open>M = o.mergeInsert\<close> on the unread bytes \<open>inp\<close>.  It returns the queries dispatched and
  the error with which \<open>Source\<close> returns from inside the loop (\<open>None\<close>: the loop was left
  by \<open>break\<close> at \<open>io.EOF\<close>).
\<close>

function source_loop ::
  "dbWrapper \<Rightarrow> int \<Rightarrow> string \<Rightarrow> string list \<Rightarrow> string list \<times> string option" where
  "source_loop w M inp dispatched =
     (case ReadString (CHR '';'') inp of
        (line, rest, eof) \<Rightarrow>
          if eof then (dispatched, None)
          else let ssql = trim line
               in if M > 1 \<and> HasPrefix ssql ''INSERT INTO''
                  then (case accumulate (nat (M - 1)) rest [ssql] of
                          (insertSQLs, rest') \<Rightarrow>
                            (case mergeInsert insertSQLs of
                               Inl e \<Rightarrow> (dispatched, Some e)
                             | Inr merged \<Rightarrow>
                                 (case Exec w merged dispatched of
                                    (dispatched', Some e) \<Rightarrow> (dispatched', Some e)
                                  | (dispatched', None) \<Rightarrow> source_loop w M rest' dispatched')))
                  else (case Exec w ssql dispatched of
                          (dispatched', Some e) \<Rightarrow> (dispatched', Some e)
                        | (dispatched', None) \<Rightarrow> source_loop w M rest dispatched'))"
  by pat_completeness auto

lemma accumulate_shorter:
  "accumulate k rest acc = (insertSQLs, rest') \<Longrightarrow> length rest' \<le> length rest"
  using accumulate_length [of k rest acc] by simp

termination source_loop
proof (relation "measure (\<lambda>(w, M, inp, dispatched). length inp)", goal_cases)
  case 1
  show ?case by simp
next
  case 2
  then show ?case
    by (auto dest!: ReadString_shorter [OF sym] accumulate_shorter [OF sym])
next
  case 3
  then show ?case
    by (auto dest!: ReadString_shorter [OF sym])
qed

declare source_loop.simps [simp del]

subsection \<open>\<open>Source\<close>\<close>

text \<open>\<open>strings.Split\<close> for a separator of one byte, and \<open>GetDBNameFromDSN\<close>.\<close>

fun Split :: "string \<Rightarrow> char \<Rightarrow> string list" where
  "Split [] sep = [[]]"
| "Split (c # cs) sep =
     (if c = sep then [] # Split cs sep
      else (case Split cs sep of [] \<Rightarrow> [[c]] | x # xs \<Rightarrow> (c # x) # xs))"

definition GetDBNameFromDSN :: "string \<Rightarrow> string + string" where
  "GetDBNameFromDSN dsn =
     (case Split dsn (CHR ''/'') of
        [s0, s1] \<Rightarrow> Inr (hd (Split s1 (CHR ''?'')))
      | _ \<Rightarrow> Inl (''dsn error: '' @ dsn))"

definition zero_sourceOption :: sourceOption where
  "zero_sourceOption = \<lparr>o_dryRun = False, o_mergeInsert = 0, o_debug = False\<rparr>"

text \<open>
  \<open>Source\<close> (lines 70-188): the options are applied to the zero value in order, the database
  is selected, autocommit is switched off, the statements of the reader are dispatched, and
  the transaction is committed.  The result is the list of the queries handed to the
  executor and the error returned (\<open>None\<close> is \<open>nil\<close>).  Logging is left out.
\<close>

definition Source ::
  "string \<Rightarrow> sqlDB \<Rightarrow> string \<Rightarrow> (sourceOption \<Rightarrow> sourceOption) list
     \<Rightarrow> string list \<times> string option" where
  "Source dsn db reader opts =
     (let opt = foldl (\<lambda>acc f. f acc) zero_sourceOption opts
      in case GetDBNameFromDSN dsn of
           Inl e \<Rightarrow> ([], Some e)
         | Inr dbName \<Rightarrow>
             (case open_error db of
                Some e \<Rightarrow> ([], Some e)
              | None \<Rightarrow>
                  let w = newDBWrapper db (o_dryRun opt) (o_debug opt)
                  in case Exec w (''USE '' @ dbName @ '';'') [] of
                       (d1, Some e) \<Rightarrow> (d1, Some e)
                     | (d1, None) \<Rightarrow>
                         (case Exec w ''SET autocommit=0;'' d1 of
                            (d2, Some e) \<Rightarrow> (d2, Some e)
                          | (d2, None) \<Rightarrow>
                              (case source_loop w (o_mergeInsert opt) reader d2 of
                                 (d3, Some e) \<Rightarrow> (d3, Some e)
                               | (d3, None) \<Rightarrow>
                                   (case Exec w ''COMMIT;'' d3 of
                                      (d4, Some e) \<Rightarrow> (d4, Some e)
                                    | (d4, None) \<Rightarrow> Exec w ''SET autocommit=1;'' d4)))))"

subsection \<open>Auxiliary notions for stating the properties of the restore side\<close>

text \<open>A server that accepts every connection and every statement.\<close>

definition accepting_db :: sqlDB where
  "accepting_db = \<lparr>open_error = None, respond = (\<lambda>history query. None)\<rparr>"

text \<open>Strings of ASCII white space, as they separate the statements of a dump.\<close>

definition ascii_blank :: "string \<Rightarrow> bool" where
  "ascii_blank w \<longleftrightarrow>
     set w \<subseteq> {CHR 0x09, CHR 0x0A, CHR 0x0B, CHR 0x0C, CHR 0x0D, CHR 0x20}"

text \<open>
  \<open>single_row_insert s p v\<close>: the statement \<open>s\<close> is \<open>INSERT INTO p VALUES v ;\<close>, its only
  \<open>;\<close> is the terminator, and the text \<open>VALUES\<close> occurs in it once only, as the keyword:
  the first occurrence is the one after \<open>p\<close>, and there is none in \<open>v\<close>.  So \<open>p\<close> is
  the table and column part and \<open>v\<close> the value tuple of the statement.
\<close>

definition single_row_insert :: "string \<Rightarrow> string \<Rightarrow> string \<Rightarrow> bool" where
  "single_row_insert s p v \<longleftrightarrow>
     s = ''INSERT INTO'' @ p @ ''VALUES'' @ v @ '';''
     \<and> CHR '';'' \<notin> set p \<and> CHR '';'' \<notin> set v
     \<and> Index s ''VALUES'' = int (length (''INSERT INTO'' @ p))
     \<and> Index v ''VALUES'' = - 1"

section \<open>Dump side: the value formatter and the row batch emitter (mysqldump.go)\<close>

subsection \<open>Driver values and the formatting verbs of package \<open>fmt\<close>\<close>

text \<open>
  A scanned column is an \<open>interface{}\<close> holding one of the values of \<open>driver.Value\<close>:
  \<open>nil\<close>, \<open>[]byte\<close>, \<open>string\<close>, \<open>int64\<close>, \<open>float64\<close> (its IEEE-754 bits), \<open>bool\<close> or
  \<open>time.Time\<close>.  Of a \<open>time.Time\<close> the model keeps the calendar fields that \<open>Format\<close>
  prints.
\<close>

record go_time =
  t_year :: int
  t_month :: nat
  t_day :: nat
  t_hour :: nat
  t_minute :: nat
  t_second :: nat

datatype driver_value =
    VNil
  | VBytes string
  | VString string
  | VInt64 int
  | VFloat64 "64 word"
  | VBool bool
  | VTime go_time

datatype error = UnsupportedType string | Panic string

text \<open>The text of an error: \<open>fmt.Errorf("unsupported type: %s", Type)\<close>.\<close>

fun error_message :: "error \<Rightarrow> string" where
  "error_message (UnsupportedType T) = ''unsupported type: '' @ T"
| "error_message (Panic m) = ''panic: '' @ m"

fun digit_char :: "nat \<Rightarrow> char" where
  "digit_char n = ''0123456789ABCDEF'' ! (n mod 16)"

fun nat_digits :: "nat \<Rightarrow> string" where
  "nat_digits n = (if n < 10 then [digit_char n] else nat_digits (n div 10) @ [digit_char (n mod 10)])"

definition Itoa :: "int \<Rightarrow> string" where
  "Itoa i = (if i < 0 then ''-'' @ nat_digits (nat (- i)) else nat_digits (nat i))"

definition hex_upper :: "string \<Rightarrow> string" where
  "hex_upper bs = concat (map (\<lambda>c. [digit_char (of_char c div 16), digit_char (of_char c mod 16)]) bs)"

text \<open>
  \<open>fmt.Sprintf\<close> with one verb and one operand.  The cases written out are the ones whose
  output the standard library fixes bytewise: \<open>%s\<close> of a byte slice or a string, \<open>%d\<close> of an
  \<open>int64\<close>, \<open>%X\<close> of a byte slice or a string.  Every other combination (among them
  \<open>%f\<close> of a \<open>float64\<close> and the \<open>%!verb(type=value)\<close> texts for a mismatched operand) is
  the parameter \<open>other verb operand\<close>.
\<close>

type_synonym sprintf_other = "string \<Rightarrow> driver_value \<Rightarrow> string"

definition Sprintf_s :: "sprintf_other \<Rightarrow> driver_value \<Rightarrow> string" where
  "Sprintf_s other v = (case v of VBytes b \<Rightarrow> b | VString s \<Rightarrow> s | _ \<Rightarrow> other ''%s'' v)"

definition Sprintf_d :: "sprintf_other \<Rightarrow> driver_value \<Rightarrow> string" where
  "Sprintf_d other v = (case v of VInt64 i \<Rightarrow> Itoa i | _ \<Rightarrow> other ''%d'' v)"

definition Sprintf_f :: "sprintf_other \<Rightarrow> driver_value \<Rightarrow> string" where
  "Sprintf_f other v = other ''%f'' v"

definition Sprintf_X :: "sprintf_other \<Rightarrow> driver_value \<Rightarrow> string" where
  "Sprintf_X other v =
     (case v of VBytes b \<Rightarrow> hex_upper b | VString s \<Rightarrow> hex_upper s | _ \<Rightarrow> other ''%X'' v)"

text \<open>
  \<open>time.Time.Format\<close> for the two layouts used, \<open>2006-01-02\<close> and
  \<open>2006-01-02 15:04:05\<close> (\<open>DEFAULT_LOG_TIMESTAMP\<close>): the year padded to four digits,
  every other field to two.
\<close>

definition pad :: "nat \<Rightarrow> string \<Rightarrow> string" where
  "pad width s = replicate (width - length s) (CHR ''0'') @ s"

definition format_year :: "int \<Rightarrow> string" where
  "format_year y = (if y < 0 then ''-'' @ pad 4 (nat_digits (nat (- y))) else pad 4 (nat_digits (nat y)))"

definition Format_date :: "go_time \<Rightarrow> string" where
  "Format_date t =
     format_year (t_year t) @ ''-'' @ pad 2 (nat_digits (t_month t)) @ ''-'' @ pad 2 (nat_digits (t_day t))"

definition Format_timestamp :: "go_time \<Rightarrow> string" where
  "Format_timestamp t =
     Format_date t @ '' '' @ pad 2 (nat_digits (t_hour t)) @ '':'' @ pad 2 (nat_digits (t_minute t))
       @ '':'' @ pad 2 (nat_digits (t_second t))"

subsection \<open>Replacers\<close>

text \<open>
  \<open>strings.Replace(s, old, new, -1)\<close> for a non-empty \<open>old\<close>: the non-overlapping
  occurrences are replaced from left to right.
\<close>

function Replace :: "string \<Rightarrow> string \<Rightarrow> string \<Rightarrow> string" where
  "Replace s old new =
     (if s = [] \<or> old = [] then s
      else if HasPrefix s old then new @ Replace (drop (length old) s) old new
      else hd s # Replace (tl s) old new)"
  by pat_completeness auto
termination
  by (relation "measure (\<lambda>(s, old, new). length s)") auto

declare Replace.simps [simp del]

text \<open>
  A \<open>strings.Replacer\<close> all of whose old strings are single bytes replaces byte by byte;
  of two pairs with the same old byte the first one counts.
\<close>

definition replace_bytes :: "(char \<times> string) list \<Rightarrow> string \<Rightarrow> string" where
  "replace_bytes table s =
     concat (map (\<lambda>c. case map_of table c of None \<Rightarrow> [c] | Some r \<Rightarrow> r) s)"

text \<open>\<open>sanitize\<close> (util.go, lines 30-43): the replacer table, old byte and new text.\<close>

definition sanitize :: "string \<Rightarrow> string" where
  "sanitize input =
     replace_bytes
       [(CHR 0x00, [CHR 0x5C, CHR ''0'']),
        (CHR 0x27, [CHR 0x5C, CHR 0x27]),
        (CHR 0x22, [CHR 0x5C, CHR 0x22]),
        (CHR 0x08, [CHR 0x5C, CHR ''b'']),
        (CHR 0x0A, [CHR 0x5C, CHR ''n'']),
        (CHR 0x0D, [CHR 0x5C, CHR ''r'']),
        (CHR 0x1A, [CHR 0x5C, CHR ''Z''])]
       input"

text \<open>The replacer that \<open>buildRowData\<close> builds itself at line 540 of mysqldump.go.\<close>

definition row_replacer :: "string \<Rightarrow> string" where
  "row_replacer input =
     replace_bytes
       [(CHR 0x0A, [CHR 0x5C, CHR ''n'']),
        (CHR 0x27, [CHR 0x5C, CHR 0x27]),
        (CHR 0x0D, [CHR 0x5C, CHR ''r'']),
        (CHR 0x22, [CHR 0x5C, CHR 0x22])]
       input"

subsection \<open>\<open>buildRowData\<close>\<close>

text \<open>
  What the \<open>switch\<close> of \<open>buildRowData\<close> does with one non-nil column: it appends text to
  \<open>ssql\<close> (\<open>Emit\<close>), or it leaves the function by \<open>return "", err\<close> where the named result
  \<open>err\<close> has never been assigned and is \<open>nil\<close> (\<open>ReturnEmpty\<close>), or it fails (\<open>Fail\<close>): with
  the unsupported-type error of the \<open>default\<close> branch, or with the run-time panic of the
  type assertion \<open>col.(bool)\<close> on a value that is no \<open>bool\<close>.
\<close>

datatype column_result = Emit string | ReturnEmpty | Fail error

definition normalize_type :: "string \<Rightarrow> string" where
  "normalize_type T = Replace (Replace T ''UNSIGNED'' '''') '' '' ''''"

definition format_value ::
  "sprintf_other \<Rightarrow> (string \<Rightarrow> string) \<Rightarrow> string \<Rightarrow> driver_value \<Rightarrow> column_result" where
  "format_value other esc T col =
     (if T \<in> set [''TINYINT'', ''SMALLINT'', ''MEDIUMINT'', ''INT'', ''INTEGER'', ''BIGINT''] then
        (case col of VBytes bs \<Rightarrow> Emit bs | _ \<Rightarrow> Emit (Sprintf_d other col))
      else if T \<in> set [''FLOAT'', ''DOUBLE''] then
        (case col of VBytes bs \<Rightarrow> Emit bs | _ \<Rightarrow> Emit (Sprintf_f other col))
      else if T \<in> set [''DECIMAL'', ''DEC''] then Emit (Sprintf_s other col)
      else if T = ''DATE'' then
        (case col of VTime t \<Rightarrow> Emit ([CHR 0x27] @ Format_date t @ [CHR 0x27]) | _ \<Rightarrow> ReturnEmpty)
      else if T = ''DATETIME'' then
        (case col of VTime t \<Rightarrow> Emit ([CHR 0x27] @ Format_timestamp t @ [CHR 0x27]) | _ \<Rightarrow> ReturnEmpty)
      else if T = ''TIMESTAMP'' then
        (case col of VTime t \<Rightarrow> Emit ([CHR 0x27] @ Format_timestamp t @ [CHR 0x27]) | _ \<Rightarrow> ReturnEmpty)
      else if T = ''TIME'' then
        (case col of VBytes t \<Rightarrow> Emit ([CHR 0x27] @ t @ [CHR 0x27]) | _ \<Rightarrow> ReturnEmpty)
      else if T = ''YEAR'' then
        (case col of VBytes t \<Rightarrow> Emit t | _ \<Rightarrow> ReturnEmpty)
      else if T \<in> set [''CHAR'', ''VARCHAR'', ''TINYTEXT'', ''TEXT'', ''MEDIUMTEXT'', ''LONGTEXT''] then
        Emit ([CHR 0x27] @ esc (Sprintf_s other col) @ [CHR 0x27])
      else if T \<in> set [''BIT'', ''BINARY'', ''VARBINARY'', ''TINYBLOB'', ''BLOB'', ''MEDIUMBLOB'',
                       ''LONGBLOB''] then
        Emit (''0x'' @ Sprintf_X other col)
      else if T \<in> set [''ENUM'', ''SET''] then
        Emit ([CHR 0x27] @ Sprintf_s other col @ [CHR 0x27])
      else if T \<in> set [''BOOL'', ''BOOLEAN''] then
        (case col of
           VBool b \<Rightarrow> Emit (if b then ''true'' else ''false'')
         | _ \<Rightarrow> Fail (Panic ''interface conversion: interface {} is not bool''))
      else if T = ''JSON'' then
        Emit ([CHR 0x27] @ Sprintf_s other col @ [CHR 0x27])
      else Fail (UnsupportedType T))"

text \<open>
  The loop of \<open>buildRowData\<close> over \<open>row\<close>, at index \<open>i\<close> with \<open>n = len(row)\<close> and the text
  \<open>ssql\<close> built so far.  \<open>columnTypes[i]\<close> beyond the slice is Go's index panic.
\<close>

fun buildRowData_from ::
  "sprintf_other \<Rightarrow> (string \<Rightarrow> string) \<Rightarrow> string list \<Rightarrow> nat \<Rightarrow> nat \<Rightarrow> driver_value list
     \<Rightarrow> string \<Rightarrow> error + string" where
  "buildRowData_from other esc columnTypes n i [] ssql = Inr ssql"
| "buildRowData_from other esc columnTypes n i (col # cols) ssql =
     (let sep = (if int i < int n - 1 then '','' else '''')
      in if col = VNil
         then buildRowData_from other esc columnTypes n (Suc i) cols (ssql @ ''NULL'' @ sep)
         else if length columnTypes \<le> i then Inl (Panic ''index out of range'')
         else (case format_value other esc (normalize_type (columnTypes ! i)) col of
                 Emit s \<Rightarrow>
                   buildRowData_from other esc columnTypes n (Suc i) cols (ssql @ s @ sep)
               | ReturnEmpty \<Rightarrow> Inr ''''
               | Fail e \<Rightarrow> Inl e))"

text \<open>
  \<open>buildRowData\<close> of lines 484-565, which escapes character columns with the replacer of
  line 540, and the second copy of the function (lines 1072-1152), which calls \<open>sanitize\<close>
  instead and is the same otherwise.
\<close>

definition buildRowData_with ::
  "sprintf_other \<Rightarrow> (string \<Rightarrow> string) \<Rightarrow> driver_value list \<Rightarrow> string list \<Rightarrow> error + string" where
  "buildRowData_with other esc row columnTypes =
     buildRowData_from other esc columnTypes (length row) 0 row ''''"

definition buildRowData ::
  "sprintf_other \<Rightarrow> driver_value list \<Rightarrow> string list \<Rightarrow> error + string" where
  "buildRowData other row columnTypes = buildRowData_with other row_replacer row columnTypes"

definition buildRowData_sanitize ::
  "sprintf_other \<Rightarrow> driver_value list \<Rightarrow> string list \<Rightarrow> error + string" where
  "buildRowData_sanitize other row columnTypes = buildRowData_with other sanitize row columnTypes"

subsection \<open>\<open>writeTableData\<close>\<close>

text \<open>\<open>strings.Join\<close>.\<close>

fun Join :: "string list \<Rightarrow> string \<Rightarrow> string" where
  "Join [] sep = []"
| "Join [x] sep = x"
| "Join (x # y # ys) sep = x @ sep @ Join (y # ys) sep"

text \<open>
  The result set of \<open>SELECT * FROM table\<close> is a parameter: the column names, the database
  type names of the columns, and the rows in the order of the cursor, each row scanned
  into \<open>len(columns)\<close> values.  The calls of \<open>database/sql\<close> themselves (\<open>Query\<close>,
  \<open>Columns\<close>, \<open>ColumnTypes\<close>, \<open>Scan\<close>) are taken to succeed.
\<close>

record result_set =
  columns :: "string list"
  columnTypes :: "string list"
  rows :: "driver_value list list"

definition insert_prefix :: "string \<Rightarrow> string list \<Rightarrow> string" where
  "insert_prefix table cols =
     ''INSERT INTO `'' @ table @ ''` (`'' @ Join cols ''`,`'' @ ''`) VALUES \<newline>''"

text \<open>
  The loop \<open>for lineRows.Next()\<close> (lines 447-476) on the rows not yet fetched, with the
  counter \<open>rowId\<close> and the contents \<open>buf\<close> of the writer.  The row formatter \<open>build\<close> is
  \<open>buildRowData\<close> applied to the formatting parameter.  The result is the contents of the
  writer when the loop ends, and the error with which \<open>writeTableData\<close> returns from inside
  the loop.
\<close>

fun write_rows ::
  "(driver_value list \<Rightarrow> string list \<Rightarrow> error + string) \<Rightarrow> string \<Rightarrow> string list
     \<Rightarrow> string list \<Rightarrow> int \<Rightarrow> nat \<Rightarrow> driver_value list list \<Rightarrow> string
     \<Rightarrow> string \<times> error option" where
  "write_rows build table cols types perDataNumber rowId [] buf = (buf, None)"
| "write_rows build table cols types perDataNumber rowId (row # later) buf =
     (let new_statement =
            (rowId = 0 \<or> perDataNumber < 2 \<or> int rowId mod perDataNumber = 0);
          ssql = (if new_statement
                  then (if rowId > 0 then '';\<newline>'' else '''') @ insert_prefix table cols
                  else '''');
          buf1 = (if new_statement then buf else buf @ '',\<newline>'')
      in case build row types of
           Inl e \<Rightarrow> (buf1, Some e)
         | Inr rowString \<Rightarrow>
             write_rows build table cols types perDataNumber (Suc rowId) later
               (buf1 @ ssql @ ''('' @ rowString @ '')''))"

definition data_header :: "string \<Rightarrow> string" where
  "data_header table =
     ''-- ----------------------------\<newline>''
     @ ''-- Records of '' @ table @ ''\<newline>''
     @ ''-- ----------------------------\<newline>''
     @ ''LOCK TABLES `'' @ table @ ''` WRITE;\<newline>''
     @ ''/*!40000 ALTER TABLE `'' @ table @ ''` DISABLE KEYS */;\<newline>''"

definition data_footer :: "string \<Rightarrow> string" where
  "data_footer table =
     '';\<newline>''
     @ ''/*!40000 ALTER TABLE `'' @ table @ ''` ENABLE KEYS */;\<newline>''
     @ ''UNLOCK TABLES;\<newline>\<newline>''"

text \<open>
  \<open>writeTableData\<close> (lines 421-482): what is in the writer afterwards, and the error
  returned.  \<open>data_header\<close> is the text of lines 422-426, \<open>data_footer\<close> that of lines
  478-480.  The second copy of the function in the same file (lines 1009-1070) differs
  in the wording of the comment line only.
\<close>

definition writeTableData ::
  "sprintf_other \<Rightarrow> result_set \<Rightarrow> string \<Rightarrow> string \<Rightarrow> int \<Rightarrow> string \<times> error option" where
  "writeTableData other rs table buf perDataNumber =
     (case write_rows (buildRowData other) table (columns rs) (columnTypes rs) perDataNumber 0
             (rows rs) (buf @ data_header table) of
        (buf', Some e) \<Rightarrow> (buf', Some e)
      | (buf', None) \<Rightarrow> (buf' @ data_footer table, None))"

subsection \<open>The trigger cache\<close>

record triggerStruct =
  Trigger :: string
  Event :: string
  Table :: string
  Statement :: string
  Timing :: string

definition zero_trigger :: triggerStruct where
  "zero_trigger = \<lparr>Trigger = '''', Event = '''', Table = '''', Statement = '''', Timing = ''''\<rparr>"

text \<open>
  The answer of the server to \<open>SHOW TRIGGERS\<close> is a parameter of each call: the error of
  \<open>db.Query\<close>, or the column names and the rows, where a row is the error of \<open>Scan\<close> or
  the scanned values.
\<close>

record trigger_rows =
  trg_columns :: "string list"
  trg_rows :: "(string + driver_value list) list"

type_synonym trigger_db = "string + trigger_rows"

text \<open>
  The state: the package variable \<open>allTriggers\<close> (\<open>None\<close> is the \<open>nil\<close> map) and the
  queries sent to the server so far.  Reading a key that a Go map does not hold gives the
  \<open>nil\<close> slice.
\<close>

record dump_state =
  allTriggers :: "(string \<rightharpoonup> triggerStruct list) option"
  queries :: "string list"

definition lookup :: "(string \<rightharpoonup> triggerStruct list) \<Rightarrow> string \<Rightarrow> triggerStruct list" where
  "lookup m table = (case m table of None \<Rightarrow> [] | Some ts \<Rightarrow> ts)"

text \<open>The inner loop over one scanned row (lines 618-632).\<close>

fun set_field :: "sprintf_other \<Rightarrow> triggerStruct \<Rightarrow> string \<times> driver_value \<Rightarrow> triggerStruct" where
  "set_field other trg (column, v) =
     (if column = ''Table'' then trg\<lparr>Table := Sprintf_s other v\<rparr>
      else if column = ''Event'' then trg\<lparr>Event := Sprintf_s other v\<rparr>
      else if column = ''Trigger'' then trg\<lparr>Trigger := Sprintf_s other v\<rparr>
      else if column = ''Statement'' then trg\<lparr>Statement := Sprintf_s other v\<rparr>
      else if column = ''Timing'' then trg\<lparr>Timing := Sprintf_s other v\<rparr>
      else trg)"

definition row_trigger :: "sprintf_other \<Rightarrow> string list \<Rightarrow> driver_value list \<Rightarrow> triggerStruct" where
  "row_trigger other cols trgrow = foldl (set_field other) zero_trigger (zip cols trgrow)"

text \<open>
  The loop \<open>for trgs.Next()\<close> (lines 607-634) on the map built so far: the map when the
  loop ends, and the error of \<open>Scan\<close> that ended it.
\<close>

fun scan_triggers ::
  "sprintf_other \<Rightarrow> string list \<Rightarrow> (string + driver_value list) list
     \<Rightarrow> (string \<rightharpoonup> triggerStruct list) \<Rightarrow> (string \<rightharpoonup> triggerStruct list) \<times> string option" where
  "scan_triggers other cols [] m = (m, None)"
| "scan_triggers other cols (Inl e # later) m = (m, Some e)"
| "scan_triggers other cols (Inr trgrow # later) m =
     (let trigger = row_trigger other cols trgrow
      in scan_triggers other cols later
           (m(Table trigger \<mapsto> lookup m (Table trigger) @ [trigger])))"

text \<open>
  \<open>getTrigger\<close> (lines 590-636): the triggers returned, the error, and the new state.
\<close>

definition getTrigger ::
  "sprintf_other \<Rightarrow> trigger_db \<Rightarrow> string \<Rightarrow> dump_state
     \<Rightarrow> (triggerStruct list \<times> string option) \<times> dump_state" where
  "getTrigger other db table st =
     (case allTriggers st of
        Some m \<Rightarrow> ((lookup m table, None), st)
      | None \<Rightarrow>
          (let st1 = st\<lparr>allTriggers := Some Map.empty, queries := queries st @ [''SHOW TRIGGERS'']\<rparr>
           in case db of
                Inl e \<Rightarrow> (([], Some e), st1)
              | Inr trgs \<Rightarrow>
                  (case scan_triggers other (trg_columns trgs) (trg_rows trgs) Map.empty of
                     (m, Some e) \<Rightarrow> (([], Some e), st1\<lparr>allTriggers := Some m\<rparr>)
                   | (m, None) \<Rightarrow> ((lookup m table, None), st1\<lparr>allTriggers := Some m\<rparr>))))"

text \<open>
  A session: \<open>getTrigger\<close> is called for one table after the other, each time with the
  connection of that call.  The results are returned in the order of the calls.
\<close>

fun getTrigger_calls ::
  "sprintf_other \<Rightarrow> (trigger_db \<times> string) list \<Rightarrow> dump_state
     \<Rightarrow> (triggerStruct list \<times> string option) list \<times> dump_state" where
  "getTrigger_calls other [] st = ([], st)"
| "getTrigger_calls other ((db, table) # later) st =
     (case getTrigger other db table st of
        (r, st1) \<Rightarrow> (case getTrigger_calls other later st1 of (rs, st2) \<Rightarrow> (r # rs, st2)))"

definition fresh_state :: dump_state where
  "fresh_state = \<lparr>allTriggers = None, queries = []\<rparr>"

subsection \<open>Auxiliary notions for stating the properties of the dump side\<close>

text \<open>
  The statement of one batch as the specification describes it: the \<open>INSERT\<close> prefix
  followed by the tuple of the first row, then a comma and the tuple for each further row
  of the batch, then the terminator.  The emitter ends the prefix, the comma and the
  terminator with a newline.
\<close>

fun batch_statement :: "string \<Rightarrow> string list \<Rightarrow> string" where
  "batch_statement prefix [] = prefix @ '';\<newline>''"
| "batch_statement prefix (t # ts) =
     prefix @ t @ concat (map (\<lambda>x. '',\<newline>'' @ x) ts) @ '';\<newline>''"

text \<open>The rows of a table cut into consecutive batches of \<open>n\<close> rows, the last one possibly shorter.\<close>

function batches :: "nat \<Rightarrow> 'a list \<Rightarrow> 'a list list" where
  "batches n xs = (if n = 0 \<or> xs = [] then [] else take n xs # batches n (drop n xs))"
  by pat_completeness auto
termination
  by (relation "measure (\<lambda>(n, xs). length xs)") auto

declare batches.simps [simp del]

text \<open>The tuple that \<open>writeTableData\<close> writes for a row whose formatting succeeds.\<close>

definition row_tuple :: "sprintf_other \<Rightarrow> string list \<Rightarrow> driver_value list \<Rightarrow> string" where
  "row_tuple other types row =
     (case buildRowData other row types of Inr s \<Rightarrow> ''('' @ s @ '')'' | Inl e \<Rightarrow> '''')"

text \<open>
  The trigger records that one answer to \<open>SHOW TRIGGERS\<close> holds, as the specification
  describes them.  A field of a record is the text of the value in the column of that
  name (the last one, should a name occur twice), and empty when there is no such
  column.  The rows fetched are the rows before the first one whose \<open>Scan\<close> fails, in the
  order of the answer; a failed query fetches none.  \<open>fetch_error\<close> is the error of the
  query or of that first failing \<open>Scan\<close>.
\<close>

definition field_of :: "sprintf_other \<Rightarrow> string list \<Rightarrow> driver_value list \<Rightarrow> string \<Rightarrow> string" where
  "field_of other cols vs name =
     (case filter (\<lambda>cv. fst cv = name) (zip cols vs) of
        [] \<Rightarrow> []
      | cv # cvs \<Rightarrow> Sprintf_s other (snd (last (cv # cvs))))"

definition trigger_of_row :: "sprintf_other \<Rightarrow> string list \<Rightarrow> driver_value list \<Rightarrow> triggerStruct" where
  "trigger_of_row other cols vs =
     \<lparr>Trigger = field_of other cols vs ''Trigger'',
      Event = field_of other cols vs ''Event'',
      Table = field_of other cols vs ''Table'',
      Statement = field_of other cols vs ''Statement'',
      Timing = field_of other cols vs ''Timing''\<rparr>"

fun scanned_rows :: "(string + driver_value list) list \<Rightarrow> driver_value list list" where
  "scanned_rows [] = []"
| "scanned_rows (Inl e # rs) = []"
| "scanned_rows (Inr vs # rs) = vs # scanned_rows rs"

fun first_scan_error :: "(string + driver_value list) list \<Rightarrow> string option" where
  "first_scan_error [] = None"
| "first_scan_error (Inl e # rs) = Some e"
| "first_scan_error (Inr vs # rs) = first_scan_error rs"

definition fetched_triggers :: "sprintf_other \<Rightarrow> trigger_db \<Rightarrow> triggerStruct list" where
  "fetched_triggers other db =
     (case db of
        Inl e \<Rightarrow> []
      | Inr trgs \<Rightarrow>
          map (trigger_of_row other (trg_columns trgs)) (scanned_rows (trg_rows trgs)))"

definition fetch_error :: "trigger_db \<Rightarrow> string option" where
  "fetch_error db =
     (case db of Inl e \<Rightarrow> Some e | Inr trgs \<Rightarrow> first_scan_error (trg_rows trgs))"

text \<open>The type names that the \<open>switch\<close> of \<open>buildRowData\<close> has a case for.\<close>

definition supported_types :: "string list" where
  "supported_types =
     [''TINYINT'', ''SMALLINT'', ''MEDIUMINT'', ''INT'', ''INTEGER'', ''BIGINT'', ''FLOAT'',
      ''DOUBLE'', ''DECIMAL'', ''DEC'', ''DATE'', ''DATETIME'', ''TIMESTAMP'', ''TIME'', ''YEAR'',
      ''CHAR'', ''VARCHAR'', ''TINYTEXT'', ''TEXT'', ''MEDIUMTEXT'', ''LONGTEXT'', ''BIT'',
      ''BINARY'', ''VARBINARY'', ''TINYBLOB'', ''BLOB'', ''MEDIUMBLOB'', ''LONGBLOB'', ''ENUM'',
      ''SET'', ''BOOL'', ''BOOLEAN'', ''JSON'']"

text \<open>A formatting parameter for concrete examples; none of them reaches it.\<close>

definition no_other :: sprintf_other where
  "no_other verb v = ''%!'' @ verb"

section \<open>Properties of the restore side\<close>

subsection \<open>Reading and trimming one statement\<close>

lemma leading_space_ascii:
  "leading_space space_encodings (CHR 0x09 # s) = 1"
  "leading_space space_encodings (CHR 0x0A # s) = 1"
  "leading_space space_encodings (CHR 0x0B # s) = 1"
  "leading_space space_encodings (CHR 0x0C # s) = 1"
  "leading_space space_encodings (CHR 0x0D # s) = 1"
  "leading_space space_encodings (CHR 0x20 # s) = 1"
  by (simp_all add: leading_space_def space_encodings_def HasPrefix_def)

lemma leading_space_semicolon_rev:
  "leading_space (map rev space_encodings) (CHR '';'' # s) = 0"
  by (simp add: leading_space_def space_encodings_def HasPrefix_def)

lemma leading_space_I:
  "leading_space space_encodings (CHR ''I'' # s) = 0"
  by (simp add: leading_space_def space_encodings_def HasPrefix_def)

lemma leading_space_cases:
  "leading_space encs s = 0 \<or> (\<exists>e \<in> set encs. e \<noteq> [] \<and> s = e @ drop (leading_space encs s) s \<and> leading_space encs s = length e)"
  unfolding leading_space_def
  apply (auto split: option.splits simp: find_Some_iff HasPrefix_def)
  by (metis append_take_drop_id nth_mem)

lemma strip_leading_decomp:
  "\<exists>es. set es \<subseteq> set encs \<and> s = concat es @ strip_leading encs s"
proof (induction encs s rule: strip_leading.induct)
  case (1 encs s)
  show ?case
  proof (cases "leading_space encs s = 0")
    case True
    then have "s = concat [] @ strip_leading encs s" by (subst strip_leading.simps) simp
    then show ?thesis by (metis empty_set empty_subsetI)
  next
    case False
    with leading_space_cases [of encs s] obtain e where
      e: "e \<in> set encs" "s = e @ drop (leading_space encs s) s" by blast
    from 1 False obtain es where es: "set es \<subseteq> set encs"
      "drop (leading_space encs s) s = concat es @ strip_leading encs (drop (leading_space encs s) s)"
      by blast
    have st: "strip_leading encs s = strip_leading encs (drop (leading_space encs s) s)"
      using False by (subst strip_leading.simps) simp
    have "s = concat (e # es) @ strip_leading encs s"
      using e(2) es(2) st by (metis append.assoc concat.simps(2))
    moreover have "set (e # es) \<subseteq> set encs" using e(1) es(1) by simp
    ultimately show ?thesis by blast
  qed
qed

lemma leading_space_strip_leading:
  "leading_space encs (strip_leading encs s) = 0"
proof (induction encs s rule: strip_leading.induct)
  case (1 encs s)
  show ?case
  proof (cases "leading_space encs s = 0")
    case True
    then show ?thesis by (subst strip_leading.simps) simp
  next
    case False
    with 1 show ?thesis by (subst strip_leading.simps) simp
  qed
qed


lemma ReadString_terminated:
  "d \<notin> set body \<Longrightarrow> ReadString d (body @ d # rest) = (body @ [d], rest, False)"
proof -
  assume n: "d \<notin> set body"
  then have "takeWhile (\<lambda>c. c \<noteq> d) (body @ d # rest) = body"
    by (induction body) auto
  moreover from n have "dropWhile (\<lambda>c. c \<noteq> d) (body @ d # rest) = d # rest"
    by (induction body) auto
  ultimately show ?thesis by (simp add: ReadString_def)
qed

lemma ReadString_eof:
  "d \<notin> set inp \<Longrightarrow> ReadString d inp = (inp, [], True)"
  by (simp add: ReadString_def)

lemma no_empty_encoding: "[] \<notin> set space_encodings"
  by (simp add: space_encodings_def)

lemma leading_space_0_iff:
  "[] \<notin> set encs \<Longrightarrow> leading_space encs s = 0 \<longleftrightarrow> (\<forall>e\<in>set encs. \<not> HasPrefix s e)"
  by (auto simp: leading_space_def find_None_iff find_Some_iff split: option.splits)

lemma HasSuffix_rev: "HasSuffix s e \<longleftrightarrow> HasPrefix (rev s) (rev e)"
proof
  assume "HasSuffix s e"
  then have "length e \<le> length s" "drop (length s - length e) s = e"
    by (auto simp: HasSuffix_def)
  then have "s = take (length s - length e) s @ e" by (metis append_take_drop_id)
  then have "rev s = rev e @ rev (take (length s - length e) s)" by (metis rev_append)
  then show "HasPrefix (rev s) (rev e)" by (metis HasPrefix_def append_eq_conv_conj length_rev)
next
  assume "HasPrefix (rev s) (rev e)"
  then have "take (length e) (rev s) = rev e" by (simp add: HasPrefix_def)
  then have "rev s = rev e @ drop (length e) (rev s)" by (metis append_take_drop_id)
  then have "s = rev (drop (length e) (rev s)) @ e" by (metis rev_append rev_rev_ident)
  then obtain a where a: "s = a @ e" by blast
  then show "HasSuffix s e" by (simp add: HasSuffix_def)
qed

lemma TrimLeft_newline_strip:
  "strip_leading space_encodings (TrimLeft s [CHR 0x0A]) = strip_leading space_encodings s"
proof (induction s)
  case Nil
  then show ?case by (simp add: TrimLeft_def)
next
  case (Cons c s)
  show ?case
  proof (cases "c = CHR 0x0A")
    case True
    have "strip_leading space_encodings (c # s) = strip_leading space_encodings s"
      using True by (subst strip_leading.simps) (simp add: leading_space_ascii)
    with Cons True show ?thesis by (simp add: TrimLeft_def)
  next
    case False
    then show ?thesis by (simp add: TrimLeft_def)
  qed
qed

lemma trim_is_TrimSpace: "trim s = TrimSpace s"
  by (simp add: trim_def TrimSpace_def TrimLeft_newline_strip)

lemma trim_decomp:
  "\<exists>ws ws'. set ws \<subseteq> set space_encodings \<and> set ws' \<subseteq> set space_encodings
     \<and> s = concat ws @ trim s @ concat ws'"
proof -
  let ?t = "strip_leading space_encodings s"
  obtain ws where ws: "set ws \<subseteq> set space_encodings" "s = concat ws @ ?t"
    using strip_leading_decomp by blast
  obtain es where es: "set es \<subseteq> set (map rev space_encodings)"
      "rev ?t = concat es @ strip_leading (map rev space_encodings) (rev ?t)"
    using strip_leading_decomp by blast
  have "?t = rev (rev ?t)" by simp
  also have "\<dots> = rev (concat es @ strip_leading (map rev space_encodings) (rev ?t))"
    using es(2) by simp
  also have "\<dots> = trim s @ concat (map rev (rev es))"
    by (simp add: trim_is_TrimSpace TrimSpace_def rev_concat)
  finally have t: "?t = trim s @ concat (map rev (rev es))" .
  have "set (map rev (rev es)) \<subseteq> set space_encodings"
    using es(1) by auto
  with ws t show ?thesis by metis
qed

lemma HasPrefix_appendI: "HasPrefix a e \<Longrightarrow> HasPrefix (a @ b) e"
proof -
  assume "HasPrefix a e"
  then have h: "take (length e) a = e" by (simp add: HasPrefix_def)
  then have "length e \<le> length a" by (metis length_take min.cobounded1)
  with h show ?thesis by (simp add: HasPrefix_def)
qed

lemma trim_no_leading_space: "\<forall>e\<in>set space_encodings. \<not> HasPrefix (trim s) e"
proof
  fix e assume e: "e \<in> set space_encodings"
  let ?t = "strip_leading space_encodings s"
  obtain es where "rev ?t = concat es @ strip_leading (map rev space_encodings) (rev ?t)"
    using strip_leading_decomp by blast
  then have "rev (rev ?t) = rev (concat es @ strip_leading (map rev space_encodings) (rev ?t))"
    by simp
  then have t: "?t = trim s @ rev (concat es)"
    by (simp add: trim_is_TrimSpace TrimSpace_def)
  have "leading_space space_encodings ?t = 0" by (rule leading_space_strip_leading)
  then have "\<not> HasPrefix ?t e"
    using e by (simp add: leading_space_0_iff no_empty_encoding)
  then show "\<not> HasPrefix (trim s) e"
    using t HasPrefix_appendI by metis
qed

lemma trim_no_trailing_space: "\<forall>e\<in>set space_encodings. \<not> HasSuffix (trim s) e"
proof
  fix e assume e: "e \<in> set space_encodings"
  have "leading_space (map rev space_encodings)
          (strip_leading (map rev space_encodings) (rev (strip_leading space_encodings s))) = 0"
    by (rule leading_space_strip_leading)
  then have "leading_space (map rev space_encodings) (rev (trim s)) = 0"
    by (simp add: trim_is_TrimSpace TrimSpace_def)
  moreover have "[] \<notin> set (map rev space_encodings)"
    using no_empty_encoding by auto
  ultimately have "\<not> HasPrefix (rev (trim s)) (rev e)"
    using e by (simp add: leading_space_0_iff)
  then show "\<not> HasSuffix (trim s) e" by (simp add: HasSuffix_rev)
qed

text \<open>
  Claim C7, as amended.  The claim says that the reader stops at the next \<open>;\<close> that is
  neither escaped nor inside a quoted literal.  \<open>Source\<close> calls \<open>ReadString(';')\<close>, which
  knows nothing of quotes or escapes: whenever the unread input holds a \<open>;\<close> at all, the
  line read is the input up to and including its first \<open>;\<close>, whatever surrounds it, and
  the bytes after it stay unread.  The statement is that line trimmed: the line is the
  statement between two runs of white-space runes (\<open>ws\<close> and \<open>ws'\<close> list their UTF-8
  encodings), and the statement neither begins nor ends with a white-space rune.
\<close>

theorem ReadStatement_reads_to_next_semicolon_and_trims:
  assumes "CHR '';'' \<in> set inp"
  shows "\<exists>body rest ws ws'.
      inp = body @ '';'' @ rest \<and> CHR '';'' \<notin> set body
    \<and> ReadString (CHR '';'') inp = (body @ '';'', rest, False)
    \<and> set ws \<subseteq> set space_encodings \<and> set ws' \<subseteq> set space_encodings
    \<and> body @ '';'' = concat ws @ trim (body @ '';'') @ concat ws'
    \<and> (\<forall>e\<in>set space_encodings. \<not> HasPrefix (trim (body @ '';'')) e)
    \<and> (\<forall>e\<in>set space_encodings. \<not> HasSuffix (trim (body @ '';'')) e)"
proof -
  from assms obtain body rest where
    sp: "inp = body @ CHR '';'' # rest" "CHR '';'' \<notin> set body"
    by (meson split_list_first)
  then have r: "ReadString (CHR '';'') inp = (body @ '';'', rest, False)"
    by (simp add: ReadString_terminated)
  obtain ws ws' where "set ws \<subseteq> set space_encodings" "set ws' \<subseteq> set space_encodings"
    "body @ '';'' = concat ws @ trim (body @ '';'') @ concat ws'"
    using trim_decomp by blast
  with sp r trim_no_leading_space trim_no_trailing_space show ?thesis
    by (intro exI [of _ body] exI [of _ rest] exI [of _ ws] exI [of _ ws']) simp
qed

text \<open>The theorem of C7 at an input with leading white space and an unterminated rest.\<close>

theorem ReadStatement_witness:
  "CHR '';'' \<in> set ''\<newline>  USE shop;  x''
   \<and> (\<exists>body rest ws ws'.
      ''\<newline>  USE shop;  x'' = body @ '';'' @ rest \<and> CHR '';'' \<notin> set body
    \<and> ReadString (CHR '';'') ''\<newline>  USE shop;  x'' = (body @ '';'', rest, False)
    \<and> set ws \<subseteq> set space_encodings \<and> set ws' \<subseteq> set space_encodings
    \<and> body @ '';'' = concat ws @ trim (body @ '';'') @ concat ws'
    \<and> (\<forall>e\<in>set space_encodings. \<not> HasPrefix (trim (body @ '';'')) e)
    \<and> (\<forall>e\<in>set space_encodings. \<not> HasSuffix (trim (body @ '';'')) e))"
proof -
  have h: "CHR '';'' \<in> set ''\<newline>  USE shop;  x''" by simp
  from ReadStatement_reads_to_next_semicolon_and_trims [OF h] h show ?thesis by blast
qed

text \<open>
  C7 as stated fails: the \<open>;\<close> inside the quoted literal \<open>'a;b'\<close> ends the line that
  \<open>ReadString\<close> returns.
\<close>

theorem semicolon_in_literal_ends_statement:
  "ReadString (CHR '';'') ''INSERT INTO t VALUES ('a;b');''
     = (''INSERT INTO t VALUES ('a;'', ''b');'', False)"
  by (simp add: ReadString_def)

subsection \<open>An unterminated rest of the stream\<close>





lemma source_loop_eof:
  "CHR '';'' \<notin> set inp \<Longrightarrow> source_loop w M inp d = (d, None)"
  by (subst source_loop.simps) (simp add: ReadString_eof)

lemma source_loop_step:
  assumes "ReadString (CHR '';'') inp = (line, rest, False)"
  shows "source_loop w M inp d =
     (if M > 1 \<and> HasPrefix (trim line) ''INSERT INTO''
      then (case mergeInsert (fst (accumulate (nat (M - 1)) rest [trim line])) of
              Inl e \<Rightarrow> (d, Some e)
            | Inr merged \<Rightarrow>
                (case snd (Exec w merged d) of
                   Some e \<Rightarrow> (d @ [merged], Some e)
                 | None \<Rightarrow> source_loop w M (snd (accumulate (nat (M - 1)) rest [trim line]))
                             (d @ [merged])))
      else (case snd (Exec w (trim line) d) of
              Some e \<Rightarrow> (d @ [trim line], Some e)
            | None \<Rightarrow> source_loop w M rest (d @ [trim line])))"
  using assms
  by (subst source_loop.simps)
     (simp add: Let_def Exec_def split: prod.splits sum.splits option.splits)


lemma Exec_dispatched: "fst (Exec w q d) = d @ [q]"
  by (simp add: Exec_def)





subsection \<open>Merging consecutive single-row statements\<close>

lemma strip_leading_blank:
  assumes "ascii_blank w" and "leading_space space_encodings s = 0"
  shows "strip_leading space_encodings (w @ s) = s"
  using assms(1)
proof (induction w)
  case Nil
  with assms(2) show ?case by (subst strip_leading.simps) simp
next
  case (Cons c w)
  then have "leading_space space_encodings (c # w @ s) = 1"
    by (auto simp: ascii_blank_def leading_space_ascii)
  moreover from Cons have "strip_leading space_encodings (w @ s) = s"
    by (simp add: ascii_blank_def)
  ultimately show ?case by (subst strip_leading.simps) simp
qed

lemma trim_blank_insert:
  assumes "ascii_blank w"
  shows "trim (w @ ''INSERT INTO'' @ x @ '';'') = ''INSERT INTO'' @ x @ '';''"
proof -
  have "strip_leading space_encodings (w @ ''INSERT INTO'' @ x @ '';'')
          = ''INSERT INTO'' @ x @ '';''"
    using assms by (rule strip_leading_blank) (simp add: leading_space_I)
  moreover have "strip_leading (map rev space_encodings) (rev (''INSERT INTO'' @ x @ '';''))
          = rev (''INSERT INTO'' @ x @ '';'')"
    by (subst strip_leading.simps) (simp add: leading_space_semicolon_rev)
  ultimately show ?thesis
    by (simp only: trim_is_TrimSpace TrimSpace_def rev_rev_ident)
qed

lemma ascii_blank_no_semicolon: "ascii_blank w \<Longrightarrow> CHR '';'' \<notin> set w"
  by (auto simp: ascii_blank_def)

lemma TrimSuffix_semicolon: "TrimSuffix (x @ '';'') '';'' = x"
  by (simp add: TrimSuffix_def HasSuffix_def)

lemma HasPrefix_insert: "HasPrefix (''INSERT INTO'' @ x) ''INSERT INTO''"
  by (simp add: HasPrefix_def)

lemma read_blank_insert:
  assumes "single_row_insert s p v" and "ascii_blank w"
  shows "ReadString (CHR '';'') (w @ s @ rest) = (w @ s, rest, False)"
    and "trim (w @ s) = s" and "HasPrefix s ''INSERT INTO''"
proof -
  let ?body = "w @ ''INSERT INTO'' @ p @ ''VALUES'' @ v"
  from assms have s: "s = ''INSERT INTO'' @ p @ ''VALUES'' @ v @ '';''"
    and n: "CHR '';'' \<notin> set ?body"
    by (auto simp: single_row_insert_def dest: ascii_blank_no_semicolon)
  from s have "w @ s @ rest = ?body @ CHR '';'' # rest" by simp
  then have "ReadString (CHR '';'') (w @ s @ rest) = (?body @ '';'', rest, False)"
    using ReadString_terminated [OF n, of rest] by simp
  with s show "ReadString (CHR '';'') (w @ s @ rest) = (w @ s, rest, False)" by simp
  show "trim (w @ s) = s"
    using trim_blank_insert [OF assms(2), of "p @ ''VALUES'' @ v"] s by simp
  show "HasPrefix s ''INSERT INTO''" using s HasPrefix_insert by simp
qed

lemma mergeInsert_single:
  assumes "single_row_insert s p v"
  shows "mergeInsert [s] = Inr s"
proof -
  from assms have s: "s = (''INSERT INTO'' @ p @ ''VALUES'' @ v) @ '';''"
    by (simp add: single_row_insert_def)
  have "TrimSuffix s '';'' = ''INSERT INTO'' @ p @ ''VALUES'' @ v"
    unfolding s by (rule TrimSuffix_semicolon)
  with s show ?thesis by (simp add: mergeInsert_def)
qed

lemma mergeInsert_pair:
  assumes "single_row_insert s1 p1 v1" and "single_row_insert s2 p2 v2"
  shows "mergeInsert [s1, s2]
           = Inr (''INSERT INTO'' @ p1 @ ''VALUES'' @ v1 @ '','' @ v2 @ '';'')"
proof -
  define b1 where "b1 = ''INSERT INTO'' @ p1 @ ''VALUES'' @ v1"
  define k where "k = length (''INSERT INTO'' @ p2)"
  have dl: "drop (length a) (a @ b) = b" for a b :: string by simp
  from assms(1) have "s1 = b1 @ '';''"
    by (simp add: single_row_insert_def b1_def)
  then have t1: "TrimSuffix s1 '';'' = b1"
    by (simp only: TrimSuffix_semicolon)
  from assms(2) have s2: "s2 = (''INSERT INTO'' @ p2) @ ''VALUES'' @ v2 @ '';''"
    by (simp add: single_row_insert_def)
  from assms(2) have i2: "Index s2 ''VALUES'' = int k"
    unfolding single_row_insert_def k_def by blast
  have d2: "drop k s2 = ''VALUES'' @ v2 @ '';''"
    unfolding s2 k_def by (rule dl)
  have tp: "TrimPrefix (drop k s2) ''VALUES'' = v2 @ '';''"
    unfolding d2 by (simp add: TrimPrefix_def HasPrefix_def)
  have ts: "TrimSuffix (TrimPrefix (drop k s2) ''VALUES'') '';'' = v2"
    unfolding tp by (rule TrimSuffix_semicolon)
  have "mergeInsert [s1, s2] = Inr ((b1 @ '','') @ v2 @ '';'')"
    by (simp add: mergeInsert_def Let_def t1 i2 ts)
  then show ?thesis by (simp add: b1_def)
qed


lemma accumulate_one_insert:
  assumes "single_row_insert s p v" and "ascii_blank w"
  shows "accumulate (Suc 0) (w @ s @ rest) acc = (acc @ [s], rest)"
  using read_blank_insert [OF assms] by simp

lemma accumulate_one_eof:
  assumes "ascii_blank w"
  shows "accumulate (Suc 0) w acc = (acc, [])"
  using ReadString_eof [OF ascii_blank_no_semicolon [OF assms]] by simp

lemma merge_two_step:
  assumes i1: "single_row_insert s1 p1 v1" and i2: "single_row_insert s2 p2 v2"
    and b1: "ascii_blank w1" and b2: "ascii_blank w2"
    and ok: "\<And>q d. snd (Exec w q d) = None"
  shows "source_loop w 2 (w1 @ s1 @ w2 @ s2 @ rest) d
           = source_loop w 2 rest
               (d @ [''INSERT INTO'' @ p1 @ ''VALUES'' @ v1 @ '','' @ v2 @ '';''])"
proof -
  have r: "ReadString (CHR '';'') (w1 @ s1 @ w2 @ s2 @ rest)
             = (w1 @ s1, w2 @ s2 @ rest, False)"
    by (rule read_blank_insert(1) [OF i1 b1])
  have t: "trim (w1 @ s1) = s1" by (rule read_blank_insert(2) [OF i1 b1])
  have h: "HasPrefix s1 ''INSERT INTO''" by (rule read_blank_insert(3) [OF i1 b1])
  have a: "accumulate (nat (2 - 1)) (w2 @ s2 @ rest) [s1] = ([s1, s2], rest)"
    using accumulate_one_insert [OF i2 b2, of rest "[s1]"] by simp
  show ?thesis
    unfolding source_loop_step [OF r] t a fst_conv snd_conv mergeInsert_pair [OF i1 i2]
    using h by (simp add: ok)
qed

lemma merge_last_step:
  assumes i1: "single_row_insert s p v" and b1: "ascii_blank w1" and b2: "ascii_blank w2"
    and ok: "\<And>q d. snd (Exec w q d) = None"
  shows "source_loop w 2 (w1 @ s @ w2) d = (d @ [s], None)"
proof -
  have r: "ReadString (CHR '';'') (w1 @ s @ w2) = (w1 @ s, w2, False)"
    by (rule read_blank_insert(1) [OF i1 b1])
  have t: "trim (w1 @ s) = s" by (rule read_blank_insert(2) [OF i1 b1])
  have h: "HasPrefix s ''INSERT INTO''" by (rule read_blank_insert(3) [OF i1 b1])
  have a: "accumulate (nat (2 - 1)) w2 [s] = ([s], [])"
    using accumulate_one_eof [OF b2, of "[s]"] by simp
  show ?thesis
    unfolding source_loop_step [OF r] t a fst_conv snd_conv mergeInsert_single [OF i1]
    using h by (simp add: ok source_loop_eof)
qed

text \<open>
  Claim C3, as amended.  The claim speaks of any five single-row \<open>INSERT\<close> statements; the
  reader, however, cuts the stream at every \<open>;\<close> and splices at the first text \<open>VALUES\<close>.
  Let each of the five statements have the form \<open>INSERT INTO p VALUES v ;\<close> with no \<open>;\<close>
  but its terminator and with the text \<open>VALUES\<close> occurring once only, as the keyword
  (\<open>single_row_insert\<close>), and let the statements be separated, preceded and followed by
  ASCII white space.  With merge size 2 and a server that accepts every statement,
  \<open>Source\<close> dispatches exactly three statements between the opening
  \<open>USE\<close>/\<open>SET autocommit=0\<close> and the closing \<open>COMMIT\<close>/\<open>SET autocommit=1\<close>: the first
  carries the tuples \<open>v1, v2\<close>, the second \<open>v3, v4\<close>, the third is the fifth statement
  unchanged, so the tuples keep the order of the stream.
\<close>

theorem five_inserts_merge_size_two:
  assumes "single_row_insert s1 p1 v1" and "single_row_insert s2 p2 v2"
    and "single_row_insert s3 p3 v3" and "single_row_insert s4 p4 v4"
    and "single_row_insert s5 p5 v5"
    and "ascii_blank w1" and "ascii_blank w2" and "ascii_blank w3"
    and "ascii_blank w4" and "ascii_blank w5" and "ascii_blank w6"
    and "GetDBNameFromDSN dsn = Inr dbName"
    and "open_error db = None" and "\<forall>history query. respond db history query = None"
  shows "Source dsn db (w1 @ s1 @ w2 @ s2 @ w3 @ s3 @ w4 @ s4 @ w5 @ s5 @ w6)
           [WithMergeInsert 2]
         = ([''USE '' @ dbName @ '';'', ''SET autocommit=0;'',
             ''INSERT INTO'' @ p1 @ ''VALUES'' @ v1 @ '','' @ v2 @ '';'',
             ''INSERT INTO'' @ p3 @ ''VALUES'' @ v3 @ '','' @ v4 @ '';'',
             ''INSERT INTO'' @ p5 @ ''VALUES'' @ v5 @ '';'',
             ''COMMIT;'', ''SET autocommit=1;''], None)"
proof -
  let ?w = "newDBWrapper db False False"
  have ok: "snd (Exec ?w q d) = None" for q d
    using assms(14) by (simp add: Exec_def newDBWrapper_def)
  have s5: "s5 = ''INSERT INTO'' @ p5 @ ''VALUES'' @ v5 @ '';''"
    using assms(5) by (simp add: single_row_insert_def)
  have "source_loop ?w 2 (w1 @ s1 @ w2 @ s2 @ w3 @ s3 @ w4 @ s4 @ w5 @ s5 @ w6) d
          = (d @ [''INSERT INTO'' @ p1 @ ''VALUES'' @ v1 @ '','' @ v2 @ '';'',
                  ''INSERT INTO'' @ p3 @ ''VALUES'' @ v3 @ '','' @ v4 @ '';'', s5], None)" for d
    unfolding merge_two_step [OF assms(1) assms(2) assms(6) assms(7) ok]
      merge_two_step [OF assms(3) assms(4) assms(8) assms(9) ok]
      merge_last_step [OF assms(5) assms(10) assms(11) ok]
    by simp
  then show ?thesis
    unfolding s5 [symmetric]
    using assms(12) assms(13) assms(14)
    by (simp add: Source_def Let_def zero_sourceOption_def WithMergeInsert_def Exec_def
        newDBWrapper_def)
qed

text \<open>The theorem of C3 at five statements in the layout that the dump side writes.\<close>

theorem Source_five_inserts_witness:
  "Source ''root:pw@tcp(db)/shop'' accepting_db
     (''INSERT INTO `t` (`id`) VALUES \<newline>(1);\<newline>''
      @ ''INSERT INTO `t` (`id`) VALUES \<newline>(2);\<newline>''
      @ ''INSERT INTO `t` (`id`) VALUES \<newline>(3);\<newline>''
      @ ''INSERT INTO `t` (`id`) VALUES \<newline>(4);\<newline>''
      @ ''INSERT INTO `t` (`id`) VALUES \<newline>(5);\<newline>'')
     [WithMergeInsert 2]
   = ([''USE shop;'', ''SET autocommit=0;'',
       ''INSERT INTO `t` (`id`) VALUES \<newline>(1), \<newline>(2);'',
       ''INSERT INTO `t` (`id`) VALUES \<newline>(3), \<newline>(4);'',
       ''INSERT INTO `t` (`id`) VALUES \<newline>(5);'',
       ''COMMIT;'', ''SET autocommit=1;''], None)"
proof -
  let ?p = "'' `t` (`id`) ''"
  have i: "single_row_insert (''INSERT INTO'' @ ?p @ ''VALUES'' @ v @ '';'') ?p v"
    if "v \<in> {'' \<newline>(1)'', '' \<newline>(2)'', '' \<newline>(3)'', '' \<newline>(4)'', '' \<newline>(5)''}" for v
    using that by (auto simp: single_row_insert_def Index_def HasPrefix_def)
  have e: "ascii_blank []" and nl: "ascii_blank ''\<newline>''" by (simp_all add: ascii_blank_def)
  have d: "GetDBNameFromDSN ''root:pw@tcp(db)/shop'' = Inr ''shop''" by code_simp
  have o: "open_error accepting_db = None"
    and r: "\<forall>history query. respond accepting_db history query = None"
    by (simp_all add: accepting_db_def)
  from five_inserts_merge_size_two [OF i i i i i e nl nl nl nl nl d o r,
      of "'' \<newline>(1)''" "'' \<newline>(2)''" "'' \<newline>(3)''" "'' \<newline>(4)''" "'' \<newline>(5)''"]
  show ?thesis by simp
qed

text \<open>
  C3 as stated fails: five single-row \<open>INSERT\<close> statements whose value is \<open>'a;b'\<close>, merge
  size 2.  Each statement is cut after \<open>'a;\<close>; the rest \<open>b');\<close> is read by the inner loop,
  does not begin with \<open>INSERT INTO\<close> and is dropped.  Five statements are dispatched, not
  three, each one the fragment \<open>INSERT INTO t VALUES ('a;\<close>.
\<close>

theorem Source_five_inserts_semicolon_in_value:
  "Source ''root:pw@tcp(db)/shop'' accepting_db
     (''INSERT INTO t VALUES ('a;b');\<newline>''
      @ ''INSERT INTO t VALUES ('a;b');\<newline>''
      @ ''INSERT INTO t VALUES ('a;b');\<newline>''
      @ ''INSERT INTO t VALUES ('a;b');\<newline>''
      @ ''INSERT INTO t VALUES ('a;b');\<newline>'')
     [WithMergeInsert 2]
   = ([''USE shop;'', ''SET autocommit=0;'',
       ''INSERT INTO t VALUES ('a;'', ''INSERT INTO t VALUES ('a;'',
       ''INSERT INTO t VALUES ('a;'', ''INSERT INTO t VALUES ('a;'',
       ''INSERT INTO t VALUES ('a;'',
       ''COMMIT;'', ''SET autocommit=1;''], None)"
  by code_simp

subsection \<open>The statement that ends a merge batch\<close>

text \<open>
  The inner loop of \<open>Source\<close> on a statement that does not begin with \<open>INSERT INTO\<close>:
  the statement is consumed, and the result mentions it nowhere.
\<close>

lemma accumulate_drops_other_statement:
  assumes "CHR '';'' \<notin> set body"
    and "\<not> HasPrefix (trim (body @ '';'')) ''INSERT INTO''"
  shows "accumulate (Suc k) (body @ '';'' @ rest) insertSQLs = (insertSQLs, rest)"
  using assms ReadString_terminated [of "CHR '';''" body rest] by simp

text \<open>
  Claim C1 says that a statement which ends a merge batch because it does not begin with
  \<open>INSERT INTO\<close> is carried forward and executed, so that every statement of the stream is
  dispatched exactly once.  In \<open>Source\<close> the inner loop reads that statement into
  \<open>ssql2\<close> and leaves by \<open>break\<close>; nothing uses \<open>ssql2\<close> afterwards.  With merge size 2 and
  the stream \<open>INSERT; DROP TABLE x; INSERT;\<close> the two \<open>INSERT\<close> statements are dispatched
  and \<open>DROP TABLE x;\<close> never is, while \<open>Source\<close> returns \<open>nil\<close>.
\<close>

theorem Source_loses_statement_ending_merge_batch:
  "Source ''root:pw@tcp(db)/shop'' accepting_db
      ''INSERT INTO t VALUES (1);\<newline>DROP TABLE x;\<newline>INSERT INTO t VALUES (2);\<newline>''
      [WithMergeInsert 2]
    = ([''USE shop;'', ''SET autocommit=0;'', ''INSERT INTO t VALUES (1);'',
        ''INSERT INTO t VALUES (2);'', ''COMMIT;'', ''SET autocommit=1;''], None)"
  by code_simp

section \<open>Properties of the dump side\<close>

subsection \<open>The data section of a table without rows\<close>

text \<open>
  Claim C10: for a table without rows the loop body never runs, and \<open>writeTableData\<close>
  writes the comment header, \<open>LOCK TABLES\<close>, \<open>DISABLE KEYS\<close>, then the terminator \<open>;\<close> on
  a line of its own although no \<open>INSERT\<close> was begun, then \<open>ENABLE KEYS\<close> and
  \<open>UNLOCK TABLES\<close>; it returns \<open>nil\<close>.
\<close>

theorem writeTableData_empty_table:
  "writeTableData other \<lparr>columns = cols, columnTypes = types, rows = []\<rparr> table buf perDataNumber
     = (buf
        @ ''-- ----------------------------\<newline>''
        @ ''-- Records of '' @ table @ ''\<newline>''
        @ ''-- ----------------------------\<newline>''
        @ ''LOCK TABLES `'' @ table @ ''` WRITE;\<newline>''
        @ ''/*!40000 ALTER TABLE `'' @ table @ ''` DISABLE KEYS */;\<newline>''
        @ '';\<newline>''
        @ ''/*!40000 ALTER TABLE `'' @ table @ ''` ENABLE KEYS */;\<newline>''
        @ ''UNLOCK TABLES;\<newline>\<newline>'', None)"
  by (simp add: writeTableData_def data_header_def data_footer_def)

subsection \<open>The trigger cache\<close>

lemma set_field_fields:
  "Table (set_field other trg (c, v)) = (if c = ''Table'' then Sprintf_s other v else Table trg)"
  "Event (set_field other trg (c, v)) = (if c = ''Event'' then Sprintf_s other v else Event trg)"
  "Trigger (set_field other trg (c, v)) = (if c = ''Trigger'' then Sprintf_s other v else Trigger trg)"
  "Statement (set_field other trg (c, v))
     = (if c = ''Statement'' then Sprintf_s other v else Statement trg)"
  "Timing (set_field other trg (c, v)) = (if c = ''Timing'' then Sprintf_s other v else Timing trg)"
  by simp_all

lemma last_field_snoc:
  "(case filter (\<lambda>cv. fst cv = name) (xs @ [(c, v)]) of
      [] \<Rightarrow> d | cv # cvs \<Rightarrow> f (snd (last (cv # cvs))))
   = (if c = name then f v
      else (case filter (\<lambda>cv. fst cv = name) xs of
              [] \<Rightarrow> d | cv # cvs \<Rightarrow> f (snd (last (cv # cvs)))))"
  by (cases "filter (\<lambda>cv. fst cv = name) xs") auto

lemma foldl_set_field:
  "Table (foldl (set_field other) trg xs)
     = (case filter (\<lambda>cv. fst cv = ''Table'') xs of
          [] \<Rightarrow> Table trg | cv # cvs \<Rightarrow> Sprintf_s other (snd (last (cv # cvs))))"
  "Event (foldl (set_field other) trg xs)
     = (case filter (\<lambda>cv. fst cv = ''Event'') xs of
          [] \<Rightarrow> Event trg | cv # cvs \<Rightarrow> Sprintf_s other (snd (last (cv # cvs))))"
  "Trigger (foldl (set_field other) trg xs)
     = (case filter (\<lambda>cv. fst cv = ''Trigger'') xs of
          [] \<Rightarrow> Trigger trg | cv # cvs \<Rightarrow> Sprintf_s other (snd (last (cv # cvs))))"
  "Statement (foldl (set_field other) trg xs)
     = (case filter (\<lambda>cv. fst cv = ''Statement'') xs of
          [] \<Rightarrow> Statement trg | cv # cvs \<Rightarrow> Sprintf_s other (snd (last (cv # cvs))))"
  "Timing (foldl (set_field other) trg xs)
     = (case filter (\<lambda>cv. fst cv = ''Timing'') xs of
          [] \<Rightarrow> Timing trg | cv # cvs \<Rightarrow> Sprintf_s other (snd (last (cv # cvs))))"
proof (induction xs rule: rev_induct)
  case Nil
  {
    case 1 show ?case by simp
  next
    case 2 show ?case by simp
  next
    case 3 show ?case by simp
  next
    case 4 show ?case by simp
  next
    case 5 show ?case by simp
  }
next
  case (snoc x xs)
  obtain c v where x: "x = (c, v)" by (cases x)
  {
    case 1 show ?case unfolding x foldl_append foldl.simps set_field_fields last_field_snoc
      using snoc(1) by simp
  next
    case 2 show ?case unfolding x foldl_append foldl.simps set_field_fields last_field_snoc
      using snoc(2) by simp
  next
    case 3 show ?case unfolding x foldl_append foldl.simps set_field_fields last_field_snoc
      using snoc(3) by simp
  next
    case 4 show ?case unfolding x foldl_append foldl.simps set_field_fields last_field_snoc
      using snoc(4) by simp
  next
    case 5 show ?case unfolding x foldl_append foldl.simps set_field_fields last_field_snoc
      using snoc(5) by simp
  }
qed

lemma row_trigger_spec: "row_trigger other cols vs = trigger_of_row other cols vs"
  by (rule triggerStruct.equality)
     (simp_all add: row_trigger_def trigger_of_row_def field_of_def foldl_set_field
        zero_trigger_def cong: list.case_cong)

lemma lookup_update:
  "lookup (m(T \<mapsto> lookup m T @ [trg])) table
     = lookup m table @ filter (\<lambda>t. Table t = table) [trg]" if "Table trg = T"
  using that by (simp add: lookup_def)

lemma scan_triggers_spec:
  "\<exists>m. scan_triggers other cols rws m0 = (m, first_scan_error rws)
     \<and> (\<forall>table. lookup m table
           = lookup m0 table
             @ filter (\<lambda>t. Table t = table) (map (trigger_of_row other cols) (scanned_rows rws)))"
proof (induction rws arbitrary: m0)
  case Nil
  then show ?case by simp
next
  case (Cons r rws)
  show ?case
  proof (cases r)
    case (Inl e)
    then show ?thesis by simp
  next
    case (Inr vs)
    let ?trg = "trigger_of_row other cols vs"
    let ?m1 = "m0(Table ?trg \<mapsto> lookup m0 (Table ?trg) @ [?trg])"
    from Cons.IH [of ?m1] obtain m where
      m: "scan_triggers other cols rws ?m1 = (m, first_scan_error rws)"
         "\<And>table. lookup m table = lookup ?m1 table
             @ filter (\<lambda>t. Table t = table) (map (trigger_of_row other cols) (scanned_rows rws))"
      by blast
    have "scan_triggers other cols (r # rws) m0 = (m, first_scan_error (r # rws))"
      using m(1) Inr by (simp add: Let_def row_trigger_spec)
    moreover have "lookup m table = lookup m0 table
             @ filter (\<lambda>t. Table t = table)
                 (map (trigger_of_row other cols) (scanned_rows (r # rws)))" for table
      unfolding m(2) lookup_update [OF refl] using Inr by simp
    ultimately show ?thesis by blast
  qed
qed


lemma getTrigger_fresh:
  "\<exists>m. getTrigger other db table fresh_state
         = ((case fetch_error db of None \<Rightarrow> (lookup m table, None) | Some e \<Rightarrow> ([], Some e)),
            \<lparr>allTriggers = Some m, queries = [''SHOW TRIGGERS'']\<rparr>)
       \<and> (\<forall>t. lookup m t = filter (\<lambda>trg. Table trg = t) (fetched_triggers other db))"
proof (cases db)
  case (Inl e)
  have "lookup Map.empty t = []" for t by (simp add: lookup_def)
  then show ?thesis
    using Inl
    by (intro exI [of _ Map.empty])
       (simp add: getTrigger_def fresh_state_def fetch_error_def fetched_triggers_def)
next
  case (Inr trgs)
  obtain m where m:
    "scan_triggers other (trg_columns trgs) (trg_rows trgs) Map.empty
       = (m, first_scan_error (trg_rows trgs))"
    "\<And>t. lookup m t = lookup Map.empty t
             @ filter (\<lambda>trg. Table trg = t)
                 (map (trigger_of_row other (trg_columns trgs)) (scanned_rows (trg_rows trgs)))"
    using scan_triggers_spec [of other "trg_columns trgs" "trg_rows trgs" Map.empty] by blast
  have e: "lookup Map.empty t = []" for t by (simp add: lookup_def)
  have "getTrigger other db table fresh_state
         = ((case fetch_error db of None \<Rightarrow> (lookup m table, None) | Some e \<Rightarrow> ([], Some e)),
            \<lparr>allTriggers = Some m, queries = [''SHOW TRIGGERS'']\<rparr>)"
    using Inr m(1)
    by (simp add: getTrigger_def fresh_state_def fetch_error_def Let_def split: option.splits)
  moreover have "lookup m t = filter (\<lambda>trg. Table trg = t) (fetched_triggers other db)" for t
    using Inr m(2) [of t] by (simp add: e fetched_triggers_def)
  ultimately show ?thesis by blast
qed

lemma getTrigger_cached:
  "allTriggers st = Some m \<Longrightarrow> getTrigger other db table st = ((lookup m table, None), st)"
  by (simp add: getTrigger_def)

lemma getTrigger_calls_cached:
  "allTriggers st = Some m \<Longrightarrow>
     getTrigger_calls other calls st = (map (\<lambda>(db, table). (lookup m table, None)) calls, st)"
  by (induction calls) (auto simp: getTrigger_cached)

text \<open>
  Claim C6: a session starts with \<open>allTriggers = nil\<close>; its first call is
  \<open>(db0, table0)\<close>, the later calls are arbitrary, each with a connection and a table of
  its own.  The first call sends the one query \<open>SHOW TRIGGERS\<close> and leaves in
  \<open>allTriggers\<close> a map that holds, for every table, the records of the rows fetched from
  \<open>db0\<close> whose \<open>Table\<close> field is that table, in the order of the answer
  (\<open>fetched_triggers\<close>).  It returns the records of \<open>table0\<close>, or the error of the query
  or of a \<open>Scan\<close>.  Every later call returns the records that the first call fetched for
  its table, with a \<open>nil\<close> error, whatever its own connection would answer, and the
  state after all calls is the state after the first one: the same map and the same single
  query.
\<close>

theorem trigger_cache_single_query:
  "getTrigger_calls other ((db0, table0) # later) fresh_state
     = ((case fetch_error db0 of
           None \<Rightarrow> (filter (\<lambda>trg. Table trg = table0) (fetched_triggers other db0), None)
         | Some e \<Rightarrow> ([], Some e))
        # map (\<lambda>(db, table).
                 (filter (\<lambda>trg. Table trg = table) (fetched_triggers other db0), None)) later,
        snd (getTrigger other db0 table0 fresh_state))
   \<and> queries (snd (getTrigger other db0 table0 fresh_state)) = [''SHOW TRIGGERS'']
   \<and> (\<exists>m. allTriggers (snd (getTrigger other db0 table0 fresh_state)) = Some m
          \<and> (\<forall>table. lookup m table
                = filter (\<lambda>trg. Table trg = table) (fetched_triggers other db0)))"
proof -
  obtain m where m:
    "getTrigger other db0 table0 fresh_state
         = ((case fetch_error db0 of None \<Rightarrow> (lookup m table0, None) | Some e \<Rightarrow> ([], Some e)),
            \<lparr>allTriggers = Some m, queries = [''SHOW TRIGGERS'']\<rparr>)"
    "\<And>t. lookup m t = filter (\<lambda>trg. Table trg = t) (fetched_triggers other db0)"
    using getTrigger_fresh [of other db0 table0] by blast
  let ?st = "\<lparr>allTriggers = Some m, queries = [''SHOW TRIGGERS'']\<rparr>"
  have c: "getTrigger_calls other later ?st
             = (map (\<lambda>(db, table). (lookup m table, None)) later, ?st)"
    by (rule getTrigger_calls_cached) simp
  have "getTrigger_calls other ((db0, table0) # later) fresh_state
     = ((case fetch_error db0 of None \<Rightarrow> (lookup m table0, None) | Some e \<Rightarrow> ([], Some e))
        # map (\<lambda>(db, table). (lookup m table, None)) later, ?st)"
    by (simp add: m(1) c)
  then show ?thesis
    unfolding m(2) by (simp add: m(1) m(2))
qed


text \<open>
  The theorem of C6 at an answer with two triggers of \<open>orders\<close> and one of \<open>users\<close>: the
  first call asks for \<open>orders\<close>; the later calls, on a connection that is lost, get the
  trigger of \<open>users\<close> and the empty list for \<open>items\<close>.
\<close>

theorem trigger_cache_witness:
  "fst (getTrigger_calls no_other
          [(Inr \<lparr>trg_columns = [''Trigger'', ''Event'', ''Table'', ''Statement'', ''Timing''],
                 trg_rows =
                   [Inr [VBytes ''a1'', VBytes ''INSERT'', VBytes ''orders'', VBytes ''SET @x = 1'',
                         VBytes ''BEFORE''],
                    Inr [VBytes ''u1'', VBytes ''DELETE'', VBytes ''users'', VBytes ''SET @y = 2'',
                         VBytes ''AFTER''],
                    Inr [VBytes ''a2'', VBytes ''UPDATE'', VBytes ''orders'', VBytes ''SET @z = 3'',
                         VBytes ''AFTER'']]\<rparr>, ''orders''),
           (Inl ''connection lost'', ''users''),
           (Inl ''connection lost'', ''items'')]
          fresh_state)
     = [([\<lparr>Trigger = ''a1'', Event = ''INSERT'', Table = ''orders'', Statement = ''SET @x = 1'',
            Timing = ''BEFORE''\<rparr>,
          \<lparr>Trigger = ''a2'', Event = ''UPDATE'', Table = ''orders'', Statement = ''SET @z = 3'',
            Timing = ''AFTER''\<rparr>], None),
        ([\<lparr>Trigger = ''u1'', Event = ''DELETE'', Table = ''users'', Statement = ''SET @y = 2'',
            Timing = ''AFTER''\<rparr>], None),
        ([], None)]
   \<and> queries (snd (getTrigger_calls no_other
          [(Inr \<lparr>trg_columns = [''Trigger'', ''Event'', ''Table'', ''Statement'', ''Timing''],
                 trg_rows =
                   [Inr [VBytes ''a1'', VBytes ''INSERT'', VBytes ''orders'', VBytes ''SET @x = 1'',
                         VBytes ''BEFORE''],
                    Inr [VBytes ''u1'', VBytes ''DELETE'', VBytes ''users'', VBytes ''SET @y = 2'',
                         VBytes ''AFTER''],
                    Inr [VBytes ''a2'', VBytes ''UPDATE'', VBytes ''orders'', VBytes ''SET @z = 3'',
                         VBytes ''AFTER'']]\<rparr>, ''orders''),
           (Inl ''connection lost'', ''users''),
           (Inl ''connection lost'', ''items'')]
          fresh_state))
     = [''SHOW TRIGGERS'']"
proof -
  let ?db = "Inr \<lparr>trg_columns = [''Trigger'', ''Event'', ''Table'', ''Statement'', ''Timing''],
                 trg_rows =
                   [Inr [VBytes ''a1'', VBytes ''INSERT'', VBytes ''orders'', VBytes ''SET @x = 1'',
                         VBytes ''BEFORE''],
                    Inr [VBytes ''u1'', VBytes ''DELETE'', VBytes ''users'', VBytes ''SET @y = 2'',
                         VBytes ''AFTER''],
                    Inr [VBytes ''a2'', VBytes ''UPDATE'', VBytes ''orders'', VBytes ''SET @z = 3'',
                         VBytes ''AFTER'']]\<rparr> :: trigger_db"
  have ft: "fetched_triggers no_other ?db
     = [\<lparr>Trigger = ''a1'', Event = ''INSERT'', Table = ''orders'', Statement = ''SET @x = 1'',
          Timing = ''BEFORE''\<rparr>,
        \<lparr>Trigger = ''u1'', Event = ''DELETE'', Table = ''users'', Statement = ''SET @y = 2'',
          Timing = ''AFTER''\<rparr>,
        \<lparr>Trigger = ''a2'', Event = ''UPDATE'', Table = ''orders'', Statement = ''SET @z = 3'',
          Timing = ''AFTER''\<rparr>]"
    by (simp add: fetched_triggers_def trigger_of_row_def field_of_def Sprintf_s_def)
  have fe: "fetch_error ?db = None" by (simp add: fetch_error_def)
  from trigger_cache_single_query [of no_other ?db "''orders''"
      "[(Inl ''connection lost'', ''users''), (Inl ''connection lost'', ''items'')]"]
  show ?thesis by (simp add: ft fe)
qed

subsection \<open>Escaping of character columns\<close>

lemma sanitize_collision: "sanitize [CHR 0x5C, CHR ''n''] = sanitize [CHR 0x0A]"
  by (simp add: sanitize_def replace_bytes_def)

text \<open>
  Claim C2 says that escaping is a lossless round trip for values that contain a quote, a
  backslash, NUL, backspace, newline, carriage return or 0x1A.  Neither replacer has an
  entry for the backslash, while both write a backslash in front of what they escape.
  The two-byte value backslash, \<open>n\<close> is left as it is, and the one-byte value newline is
  turned into the same two bytes: two different column values give one literal, in
  \<open>sanitize\<close>, in the replacer of line 540 and in the row text of both variants of
  \<open>buildRowData\<close>.  Hence no decoder at all, compliant or not, recovers every value from
  what \<open>sanitize\<close> produces.
\<close>

theorem sanitize_leaves_backslash_unescaped:
  "sanitize [CHR 0x5C, CHR ''n''] = [CHR 0x5C, CHR ''n'']
   \<and> sanitize [CHR 0x0A] = [CHR 0x5C, CHR ''n'']
   \<and> row_replacer [CHR 0x5C, CHR ''n''] = row_replacer [CHR 0x0A]
   \<and> buildRowData no_other [VBytes [CHR 0x5C, CHR ''n'']] [''TEXT'']
       = buildRowData no_other [VBytes [CHR 0x0A]] [''TEXT'']
   \<and> buildRowData_sanitize no_other [VBytes [CHR 0x5C, CHR ''n'']] [''TEXT'']
       = buildRowData_sanitize no_other [VBytes [CHR 0x0A]] [''TEXT'']
   \<and> (\<nexists>decode. \<forall>s. decode (sanitize s) = s)"
proof -
  have c: "sanitize [CHR 0x5C, CHR ''n''] = sanitize [CHR 0x0A]"
    by (simp add: sanitize_def replace_bytes_def)
  have "\<nexists>decode. \<forall>s. decode (sanitize s) = s"
  proof
    assume "\<exists>decode. \<forall>s. decode (sanitize s) = s"
    then obtain decode where d: "\<And>s. decode (sanitize s) = s" by blast
    have "[CHR 0x5C, CHR ''n''] = decode (sanitize [CHR 0x5C, CHR ''n''])" by (simp only: d)
    also have "\<dots> = decode (sanitize [CHR 0x0A])" by (simp only: c)
    also have "\<dots> = [CHR 0x0A]" by (simp only: d)
    finally show False by simp
  qed
  moreover have "sanitize [CHR 0x5C, CHR ''n''] = [CHR 0x5C, CHR ''n'']"
    "sanitize [CHR 0x0A] = [CHR 0x5C, CHR ''n'']"
    "row_replacer [CHR 0x5C, CHR ''n''] = row_replacer [CHR 0x0A]"
    by (simp_all add: sanitize_def row_replacer_def replace_bytes_def)
  moreover have "buildRowData no_other [VBytes [CHR 0x5C, CHR ''n'']] [''TEXT'']
       = buildRowData no_other [VBytes [CHR 0x0A]] [''TEXT'']"
    by code_simp
  moreover have "buildRowData_sanitize no_other [VBytes [CHR 0x5C, CHR ''n'']] [''TEXT'']
       = buildRowData_sanitize no_other [VBytes [CHR 0x0A]] [''TEXT'']"
    by code_simp
  ultimately show ?thesis by blast
qed

subsection \<open>The column at which the row formatter stops\<close>

lemma buildRowData_from_ReturnEmpty:
  assumes "k < length cols" and "i + k < length types"
    and "\<forall>j<k. cols ! j = VNil
           \<or> (\<exists>s. format_value other esc (normalize_type (types ! (i + j))) (cols ! j) = Emit s)"
    and "cols ! k \<noteq> VNil"
    and "format_value other esc (normalize_type (types ! (i + k))) (cols ! k) = ReturnEmpty"
  shows "buildRowData_from other esc types n i cols ssql = Inr ''''"
  using assms
proof (induction cols arbitrary: i k ssql)
  case Nil
  then show ?case by simp
next
  case (Cons c cs)
  show ?case
  proof (cases k)
    case 0
    with Cons.prems show ?thesis by (simp add: Let_def)
  next
    case (Suc k')
    have step: "buildRowData_from other esc types n (Suc i) cs ssql' = Inr ''''" for ssql'
    proof (rule Cons.IH [of k' "Suc i"])
      show "k' < length cs" using Cons.prems(1) Suc by simp
      show "Suc i + k' < length types" using Cons.prems(2) Suc by simp
      show "\<forall>j<k'. cs ! j = VNil
           \<or> (\<exists>s. format_value other esc (normalize_type (types ! (Suc i + j))) (cs ! j) = Emit s)"
      proof (intro allI impI)
        fix j assume "j < k'"
        then have "Suc j < k" using Suc by simp
        with Cons.prems(3) show "cs ! j = VNil
           \<or> (\<exists>s. format_value other esc (normalize_type (types ! (Suc i + j))) (cs ! j) = Emit s)"
          by fastforce
      qed
      show "cs ! k' \<noteq> VNil" using Cons.prems(4) Suc by simp
      show "format_value other esc (normalize_type (types ! (Suc i + k'))) (cs ! k') = ReturnEmpty"
        using Cons.prems(5) Suc by simp
    qed
    have "0 < k" using Suc by simp
    with Cons.prems(3) have c: "c = VNil
        \<or> (\<exists>s. format_value other esc (normalize_type (types ! i)) c = Emit s)"
      by fastforce
    have "\<not> length types \<le> i" using Cons.prems(2) by simp
    with c step show ?thesis by (auto simp: Let_def)
  qed
qed

lemma buildRowData_from_Fail:
  assumes "k < length cols" and "i + k < length types"
    and "\<forall>j<k. cols ! j = VNil
           \<or> (\<exists>s. format_value other esc (normalize_type (types ! (i + j))) (cols ! j) = Emit s)"
    and "cols ! k \<noteq> VNil"
    and "format_value other esc (normalize_type (types ! (i + k))) (cols ! k) = Fail e"
  shows "buildRowData_from other esc types n i cols ssql = Inl e"
  using assms
proof (induction cols arbitrary: i k ssql)
  case Nil
  then show ?case by simp
next
  case (Cons c cs)
  show ?case
  proof (cases k)
    case 0
    with Cons.prems show ?thesis by (simp add: Let_def)
  next
    case (Suc k')
    have step: "buildRowData_from other esc types n (Suc i) cs ssql' = Inl e" for ssql'
    proof (rule Cons.IH [of k' "Suc i"])
      show "k' < length cs" using Cons.prems(1) Suc by simp
      show "Suc i + k' < length types" using Cons.prems(2) Suc by simp
      show "\<forall>j<k'. cs ! j = VNil
           \<or> (\<exists>s. format_value other esc (normalize_type (types ! (Suc i + j))) (cs ! j) = Emit s)"
      proof (intro allI impI)
        fix j assume "j < k'"
        then have "Suc j < k" using Suc by simp
        with Cons.prems(3) show "cs ! j = VNil
           \<or> (\<exists>s. format_value other esc (normalize_type (types ! (Suc i + j))) (cs ! j) = Emit s)"
          by fastforce
      qed
      show "cs ! k' \<noteq> VNil" using Cons.prems(4) Suc by simp
      show "format_value other esc (normalize_type (types ! (Suc i + k'))) (cs ! k') = Fail e"
        using Cons.prems(5) Suc by simp
    qed
    have "0 < k" using Suc by simp
    with Cons.prems(3) have c: "c = VNil
        \<or> (\<exists>s. format_value other esc (normalize_type (types ! i)) c = Emit s)"
      by fastforce
    have "\<not> length types \<le> i" using Cons.prems(2) by simp
    with c step show ?thesis by (auto simp: Let_def)
  qed
qed

lemma format_value_temporal:
  "format_value other esc ''DATE'' col
     = (case col of VTime t \<Rightarrow> Emit ([CHR 0x27] @ Format_date t @ [CHR 0x27]) | _ \<Rightarrow> ReturnEmpty)"
  "format_value other esc ''DATETIME'' col
     = (case col of VTime t \<Rightarrow> Emit ([CHR 0x27] @ Format_timestamp t @ [CHR 0x27])
        | _ \<Rightarrow> ReturnEmpty)"
  "format_value other esc ''TIMESTAMP'' col
     = (case col of VTime t \<Rightarrow> Emit ([CHR 0x27] @ Format_timestamp t @ [CHR 0x27])
        | _ \<Rightarrow> ReturnEmpty)"
  "format_value other esc ''TIME'' col
     = (case col of VBytes t \<Rightarrow> Emit ([CHR 0x27] @ t @ [CHR 0x27]) | _ \<Rightarrow> ReturnEmpty)"
  "format_value other esc ''YEAR'' col
     = (case col of VBytes t \<Rightarrow> Emit t | _ \<Rightarrow> ReturnEmpty)"
  by (simp_all add: format_value_def)

lemma format_value_temporal_mismatch:
  assumes "T \<in> {''DATE'', ''DATETIME'', ''TIMESTAMP''} \<and> (\<nexists>t. col = VTime t)
         \<or> T \<in> {''TIME'', ''YEAR''} \<and> (\<nexists>b. col = VBytes b)"
  shows "format_value other esc T col = ReturnEmpty"
proof -
  from assms consider
      "T = ''DATE''" "\<nexists>t. col = VTime t" | "T = ''DATETIME''" "\<nexists>t. col = VTime t"
    | "T = ''TIMESTAMP''" "\<nexists>t. col = VTime t" | "T = ''TIME''" "\<nexists>b. col = VBytes b"
    | "T = ''YEAR''" "\<nexists>b. col = VBytes b"
    by blast
  then show ?thesis
  proof cases
    case 1 then show ?thesis by (cases col) (simp_all only: format_value_temporal driver_value.case, simp_all)
  next
    case 2 then show ?thesis by (cases col) (simp_all only: format_value_temporal driver_value.case, simp_all)
  next
    case 3 then show ?thesis by (cases col) (simp_all only: format_value_temporal driver_value.case, simp_all)
  next
    case 4 then show ?thesis by (cases col) (simp_all only: format_value_temporal driver_value.case, simp_all)
  next
    case 5 then show ?thesis by (cases col) (simp_all only: format_value_temporal driver_value.case, simp_all)
  qed
qed

text \<open>
  Claim C8, as amended.  The claim speaks of every row that contains a mismatched temporal
  column; the loop, however, handles the columns from left to right and an earlier column
  may end it first.  Let column \<open>k\<close> be non-NULL, of type \<open>DATE\<close>, \<open>DATETIME\<close> or
  \<open>TIMESTAMP\<close> with a value that is no \<open>time.Time\<close>, or of type \<open>TIME\<close> or \<open>YEAR\<close> with a
  value that is no byte slice, and let every column before it be NULL or be formatted.
  Then \<open>buildRowData\<close> returns the empty string and a \<open>nil\<close> error, and the loop of
  \<open>writeTableData\<close> writes the tuple \<open>()\<close> for the row and continues with the next row
  as after any other row.
\<close>

theorem buildRowData_temporal_mismatch_returns_empty:
  assumes "k < length row" and "k < length types"
    and "\<forall>j<k. row ! j = VNil
          \<or> (\<exists>s. format_value other row_replacer (normalize_type (types ! j)) (row ! j) = Emit s)"
    and "row ! k \<noteq> VNil"
    and "normalize_type (types ! k) \<in> {''DATE'', ''DATETIME'', ''TIMESTAMP''}
           \<and> (\<nexists>t. row ! k = VTime t)
         \<or> normalize_type (types ! k) \<in> {''TIME'', ''YEAR''} \<and> (\<nexists>b. row ! k = VBytes b)"
  shows "buildRowData other row types = Inr ''''
     \<and> write_rows (buildRowData other) table cols types perDataNumber rowId (row # later) buf
        = write_rows (buildRowData other) table cols types perDataNumber (Suc rowId) later
            (buf @ (if rowId = 0 \<or> perDataNumber < 2 \<or> int rowId mod perDataNumber = 0
                    then (if rowId > 0 then '';\<newline>'' else '''') @ insert_prefix table cols
                    else '',\<newline>'') @ ''()'')"
proof -
  have m: "format_value other row_replacer (normalize_type (types ! (0 + k))) (row ! k)
             = ReturnEmpty"
    using assms(5) by (simp add: format_value_temporal_mismatch)
  have b: "buildRowData other row types = Inr ''''"
    unfolding buildRowData_def buildRowData_with_def
    using assms(1-4) m by (intro buildRowData_from_ReturnEmpty [where k = k]) simp_all
  then show ?thesis by (simp add: Let_def)
qed


text \<open>The theorem of C8 at a row whose second column is a \<open>DATE\<close> delivered as bytes.\<close>

theorem buildRowData_temporal_mismatch_witness:
  "buildRowData no_other [VInt64 7, VBytes ''2024-01-02''] [''INT UNSIGNED'', ''DATE''] = Inr []
   \<and> write_rows (buildRowData no_other) ''t'' [''id'', ''d''] [''INT UNSIGNED'', ''DATE''] 1 0
        [[VInt64 7, VBytes ''2024-01-02'']] []
      = (''INSERT INTO `t` (`id`,`d`) VALUES \<newline>()'', None)"
proof -
  let ?row = "[VInt64 7, VBytes ''2024-01-02'']"
  let ?types = "[''INT UNSIGNED'', ''DATE'']"
  have n0: "normalize_type (?types ! 0) = ''INT''" by code_simp
  have n1: "normalize_type (?types ! 1) = ''DATE''" by code_simp
  have e: "format_value no_other row_replacer (normalize_type (?types ! 0)) (?row ! 0) = Emit ''7''"
    unfolding n0 by code_simp
  have h1: "(1::nat) < length ?row" and h2: "(1::nat) < length ?types" by simp_all
  have h3: "\<forall>j<1. ?row ! j = VNil
          \<or> (\<exists>s. format_value no_other row_replacer (normalize_type (?types ! j)) (?row ! j)
                 = Emit s)"
    using e by auto
  have h4: "?row ! 1 \<noteq> VNil" by simp
  have h5: "normalize_type (?types ! 1) \<in> {''DATE'', ''DATETIME'', ''TIMESTAMP''}
           \<and> (\<nexists>t. ?row ! 1 = VTime t)
         \<or> normalize_type (?types ! 1) \<in> {''TIME'', ''YEAR''} \<and> (\<nexists>b. ?row ! 1 = VBytes b)"
    unfolding n1 by simp
  from buildRowData_temporal_mismatch_returns_empty [OF h1 h2 h3 h4 h5,
      of "''t''" "[''id'', ''d'']" 1 0 "[]" "[]"]
  show ?thesis by (simp add: insert_prefix_def)
qed

text \<open>
  C8 as stated fails: this row contains a \<open>DATE\<close> column delivered as bytes, and
  \<open>buildRowData\<close> returns the unsupported-type error of the column before it.
\<close>

theorem unsupported_type_before_mismatched_date:
  "buildRowData no_other [VBytes ''POINT(1 1)'', VBytes ''2024-01-02''] [''GEOMETRY'', ''DATE'']
     = Inl (UnsupportedType ''GEOMETRY'')"
  by code_simp

text \<open>
  When the column of an unsupported type is the first column that is neither NULL nor
  formatted, \<open>buildRowData\<close> does return the unsupported-type error naming the type, and
  the loop of \<open>writeTableData\<close> ends with that error without writing the row or any
  later row (a comma that separates the row from its predecessor is already written).
\<close>

lemma format_value_unsupported:
  "T \<notin> set supported_types \<Longrightarrow> format_value other esc T col = Fail (UnsupportedType T)"
  by (simp add: format_value_def supported_types_def)

lemma buildRowData_unsupported_type_first:
  assumes "k < length row" and "k < length types"
    and "\<forall>j<k. row ! j = VNil
          \<or> (\<exists>s. format_value other row_replacer (normalize_type (types ! j)) (row ! j) = Emit s)"
    and "row ! k \<noteq> VNil"
    and "normalize_type (types ! k) \<notin> set supported_types"
  shows "buildRowData other row types = Inl (UnsupportedType (normalize_type (types ! k)))"
proof -
  have m: "format_value other row_replacer (normalize_type (types ! (0 + k))) (row ! k)
             = Fail (UnsupportedType (normalize_type (types ! k)))"
    using assms(5) by (simp add: format_value_unsupported)
  show ?thesis
    unfolding buildRowData_def buildRowData_with_def
    using assms(1-4) m by (intro buildRowData_from_Fail [where k = k]) simp_all
qed

lemma write_rows_abort:
  assumes "build row types = Inl e"
  shows "write_rows build table cols types perDataNumber rowId (row # later) buf
           = (if rowId = 0 \<or> perDataNumber < 2 \<or> int rowId mod perDataNumber = 0
              then buf else buf @ '',\<newline>'', Some e)"
  using assms by (simp add: Let_def)

text \<open>
  Claim C5 says that a row with a non-NULL value of an unsupported type makes the formatter
  fail with the unsupported-type error and aborts the export of the table.  The row below
  has a \<open>GEOMETRY\<close> column after a \<open>DATE\<close> column whose value arrived as bytes (what the
  driver delivers without \<open>parseTime\<close>).  \<open>buildRowData\<close> leaves at the \<open>DATE\<close> column by
  \<open>return "", err\<close> with \<open>err = nil\<close> and never reaches the \<open>GEOMETRY\<close> column:
  it reports no error, \<open>writeTableData\<close> writes the empty tuple \<open>()\<close> for the row, goes on
  with the next row and returns \<open>nil\<close>.
\<close>

theorem unsupported_type_after_mismatched_date_is_silent:
  "buildRowData no_other [VBytes ''2024-01-02'', VBytes ''POINT(1 1)''] [''DATE'', ''GEOMETRY'']
     = Inr ''''
   \<and> writeTableData no_other
        \<lparr>columns = [''d'', ''g''], columnTypes = [''DATE'', ''GEOMETRY''],
         rows = [[VBytes ''2024-01-02'', VBytes ''POINT(1 1)''], [VNil, VNil]]\<rparr> ''t'' '''' 1
     = (data_header ''t''
        @ ''INSERT INTO `t` (`d`,`g`) VALUES \<newline>();\<newline>''
        @ ''INSERT INTO `t` (`d`,`g`) VALUES \<newline>(NULL,NULL)''
        @ data_footer ''t'', None)"
  by code_simp

subsection \<open>Batches of rows\<close>

lemma Join_Cons: "Join (t # ts) sep = t @ concat (map (\<lambda>x. sep @ x) ts)"
  by (induction ts arbitrary: t) auto

lemma batch_statement_Join:
  "batch_statement prefix tuples = prefix @ Join tuples '',\<newline>'' @ '';\<newline>''"
proof (cases tuples)
  case Nil
  then show ?thesis by simp
next
  case (Cons t ts)
  then show ?thesis by (simp only: batch_statement.simps Join_Cons append_assoc)
qed

lemma write_rows_new_statement:
  assumes "build row types = Inr s" and "rowId = 0 \<or> int rowId mod perDataNumber = 0"
  shows "write_rows build table cols types perDataNumber rowId (row # later) buf
           = write_rows build table cols types perDataNumber (Suc rowId) later
               (buf @ (if rowId > 0 then '';\<newline>'' else []) @ insert_prefix table cols
                  @ ''('' @ s @ '')'')"
  using assms by (auto simp: Let_def)


lemma write_rows_same_statement:
  assumes "build row types = Inr s" and "rowId \<noteq> 0" and "\<not> perDataNumber < 2"
    and "int rowId mod perDataNumber \<noteq> 0"
  shows "write_rows build table cols types perDataNumber rowId (row # later) buf
           = write_rows build table cols types perDataNumber (Suc rowId) later
               (buf @ '',\<newline>'' @ ''('' @ s @ '')'')"
  using assms by (simp add: Let_def)

lemma write_rows_continue:
  assumes "\<forall>row\<in>set xs. \<exists>s. build row types = Inr s"
    and "2 \<le> n" and "0 < j" and "j + length xs \<le> n"
  shows "write_rows build table cols types (int n) (q * n + j) (xs @ ys) buf
           = write_rows build table cols types (int n) (q * n + j + length xs) ys
               (buf @ concat (map (\<lambda>row. '',\<newline>'' @ ''('' @ projr (build row types) @ '')'') xs))"
  using assms
proof (induction xs arbitrary: j buf)
  case Nil
  then show ?case by simp
next
  case (Cons x xs)
  define k where "k = q * n + j"
  from Cons.prems obtain s where s: "build x types = Inr s" by auto
  from Cons.prems have j: "0 < j" "j < n" by simp_all
  then have "k mod n \<noteq> 0" by (simp add: k_def)
  then have m: "int k mod int n \<noteq> 0"
    by (metis of_nat_eq_0_iff zmod_int)
  have nz: "k \<noteq> 0" using j by (simp add: k_def)
  have n2: "\<not> int n < 2" using Cons.prems(2) by simp
  have ih: "write_rows build table cols types (int n) (q * n + Suc j) (xs @ ys) buf'
           = write_rows build table cols types (int n) (q * n + Suc j + length xs) ys
               (buf' @ concat (map (\<lambda>row. '',\<newline>'' @ ''('' @ projr (build row types) @ '')'') xs))"
    for buf'
    using Cons.prems by (intro Cons.IH) simp_all
  have "write_rows build table cols types (int n) k ((x # xs) @ ys) buf
          = write_rows build table cols types (int n) (Suc k) (xs @ ys)
              (buf @ '',\<newline>'' @ ''('' @ s @ '')'')"
    using write_rows_same_statement [where build = build and row = x and types = types,
        OF s nz n2 m, of table cols "xs @ ys" buf]
    by simp
  also have "Suc k = q * n + Suc j" by (simp add: k_def)
  also have "write_rows build table cols types (int n) (q * n + Suc j) (xs @ ys)
              (buf @ '',\<newline>'' @ ''('' @ s @ '')'')
       = write_rows build table cols types (int n) (q * n + Suc j + length xs) ys
       ((buf @ '',\<newline>'' @ ''('' @ s @ '')'')
          @ concat (map (\<lambda>row. '',\<newline>'' @ ''('' @ projr (build row types) @ '')'') xs))"
    by (rule ih)
  finally show ?case using s by (simp add: k_def)
qed


lemma write_rows_batch:
  assumes "\<forall>row\<in>set xs. \<exists>s. build row types = Inr s"
    and "2 \<le> n" and "xs \<noteq> []" and "length xs \<le> n"
  shows "write_rows build table cols types (int n) (q * n) (xs @ ys) buf
           = write_rows build table cols types (int n) (q * n + length xs) ys
               (buf @ (if q > 0 then '';\<newline>'' else []) @ insert_prefix table cols
                  @ Join (map (\<lambda>row. ''('' @ projr (build row types) @ '')'') xs) '',\<newline>'')"
proof -
  let ?tuple = "\<lambda>row. ''('' @ projr (build row types) @ '')''"
  let ?sep = "if q > 0 then '';\<newline>'' else []"
  from assms(3) obtain x xs' where xs: "xs = x # xs'" by (cases xs) auto
  from assms(1) xs obtain s where s: "build x types = Inr s" by auto
  have z: "q * n = 0 \<or> int (q * n) mod int n = 0"
    by simp
  have q: "(if q * n > 0 then '';\<newline>'' else []) = ?sep" using assms(2) by simp
  have first: "write_rows build table cols types (int n) (q * n) (x # xs' @ ys) buf
           = write_rows build table cols types (int n) (Suc (q * n)) (xs' @ ys)
               (buf @ ?sep @ insert_prefix table cols @ ''('' @ s @ '')'')"
    using write_rows_new_statement [where build = build and row = x and types = types,
        OF s z, of table cols "xs' @ ys" buf]
    unfolding q .
  have all': "\<forall>row\<in>set xs'. \<exists>s. build row types = Inr s" using assms(1) xs by simp
  have len': "Suc 0 + length xs' \<le> n" using assms(4) xs by simp
  have rest: "write_rows build table cols types (int n) (q * n + Suc 0) (xs' @ ys) buf'
           = write_rows build table cols types (int n) (q * n + Suc 0 + length xs') ys
               (buf' @ concat (map (\<lambda>row. '',\<newline>'' @ ?tuple row) xs'))"
    for buf'
    by (rule write_rows_continue [where build = build and types = types,
          OF all' assms(2) zero_less_Suc len'])
  have j: "Join (map ?tuple (x # xs')) '',\<newline>''
             = (''('' @ s @ '')'') @ concat (map (\<lambda>row. '',\<newline>'' @ ?tuple row) xs')"
    unfolding list.map Join_Cons using s by (simp add: comp_def)
  have "write_rows build table cols types (int n) (q * n) ((x # xs') @ ys) buf
          = write_rows build table cols types (int n) (q * n + Suc 0) (xs' @ ys)
               (buf @ ?sep @ insert_prefix table cols @ ''('' @ s @ '')'')"
    using first by simp
  also have "\<dots> = write_rows build table cols types (int n) (q * n + Suc 0 + length xs') ys
               ((buf @ ?sep @ insert_prefix table cols @ ''('' @ s @ '')'')
                  @ concat (map (\<lambda>row. '',\<newline>'' @ ?tuple row) xs'))"
    by (rule rest)
  also have "q * n + Suc 0 + length xs' = q * n + length (x # xs')" by simp
  also have "(buf @ ?sep @ insert_prefix table cols @ ''('' @ s @ '')'')
                  @ concat (map (\<lambda>row. '',\<newline>'' @ ?tuple row) xs')
        = buf @ ?sep @ insert_prefix table cols @ Join (map ?tuple (x # xs')) '',\<newline>''"
    unfolding j by simp
  finally show ?thesis unfolding xs .
qed

lemma batches_Cons:
  "0 < n \<Longrightarrow> xs \<noteq> [] \<Longrightarrow> batches n xs = take n xs # batches n (drop n xs)"
  by (subst batches.simps) simp

lemma batches_Nil: "batches n [] = []"
  by (subst batches.simps) simp

lemma write_rows_batches:
  assumes "\<forall>row\<in>set rws. \<exists>s. build row types = Inr s" and "2 \<le> n" and "rws \<noteq> []"
  shows "\<exists>b. write_rows build table cols types (int n) (q * n) rws buf = (b, None)
           \<and> b @ '';\<newline>''
               = buf @ (if q > 0 then '';\<newline>'' else [])
                   @ concat (map (batch_statement (insert_prefix table cols))
                       (batches n (map (\<lambda>row. ''('' @ projr (build row types) @ '')'') rws)))"
  using assms(1,3)
proof (induction "length rws" arbitrary: rws q buf rule: less_induct)
  case less
  let ?tuple = "\<lambda>row. ''('' @ projr (build row types) @ '')''"
  let ?P = "insert_prefix table cols"
  let ?sep = "if q > 0 then '';\<newline>'' else []"
  define xs where "xs = take n rws"
  define ys where "ys = drop n rws"
  define buf1 where "buf1 = buf @ ?sep @ ?P @ Join (map ?tuple xs) '',\<newline>''"
  have rws: "rws = xs @ ys" by (simp add: xs_def ys_def)
  have n0: "0 < n" using assms(2) by simp
  have xs_ne: "xs \<noteq> []" using less.prems(2) n0 by (simp add: xs_def)
  have xs_len: "length xs \<le> n" by (simp add: xs_def)
  have xs_ok: "\<forall>row\<in>set xs. \<exists>s. build row types = Inr s"
    using less.prems(1) by (auto simp: xs_def dest: in_set_takeD)
  have ys_ok: "\<forall>row\<in>set ys. \<exists>s. build row types = Inr s"
    using less.prems(1) by (auto simp: ys_def dest: in_set_dropD)
  have b: "batches n (map ?tuple rws) = map ?tuple xs # batches n (map ?tuple ys)"
    using batches_Cons [OF n0, of "map ?tuple rws"] less.prems(2)
    by (simp add: xs_def ys_def take_map drop_map)
  have step: "write_rows build table cols types (int n) (q * n) rws buf
           = write_rows build table cols types (int n) (q * n + length xs) ys buf1"
    unfolding rws buf1_def
    by (rule write_rows_batch [where build = build and types = types,
          OF xs_ok assms(2) xs_ne xs_len])
  show ?case
  proof (cases "ys = []")
    case True
    have "write_rows build table cols types (int n) (q * n) rws buf = (buf1, None)"
      using step True by simp
    moreover have "buf1 @ '';\<newline>''
         = buf @ ?sep @ concat (map (batch_statement ?P) (batches n (map ?tuple rws)))"
      unfolding b using True by (simp add: buf1_def batch_statement_Join batches_Nil)
    ultimately show ?thesis by blast
  next
    case False
    then have "n < length rws" by (simp add: ys_def)
    then have len: "length xs = n" and shorter: "length ys < length rws"
      using n0 by (simp_all add: xs_def ys_def)
    from less.hyps [OF shorter ys_ok False, of "Suc q" buf1]
    obtain b' where b': "write_rows build table cols types (int n) (Suc q * n) ys buf1 = (b', None)"
      "b' @ '';\<newline>'' = buf1 @ '';\<newline>''
           @ concat (map (batch_statement ?P) (batches n (map ?tuple ys)))"
      by auto
    have "q * n + length xs = Suc q * n" using len by simp
    with step b'(1) have "write_rows build table cols types (int n) (q * n) rws buf = (b', None)"
      by simp
    moreover have "b' @ '';\<newline>''
         = buf @ ?sep @ concat (map (batch_statement ?P) (batches n (map ?tuple rws)))"
      unfolding b b'(2) by (simp add: buf1_def batch_statement_Join)
    ultimately show ?thesis by blast
  qed
qed

lemma write_rows_append:
  "write_rows build table cols types N k (xs @ ys) buf
     = (case write_rows build table cols types N k xs buf of
          (b, None) \<Rightarrow> write_rows build table cols types N (k + length xs) ys b
        | (b, Some e) \<Rightarrow> (b, Some e))"
proof (induction xs arbitrary: k buf)
  case Nil
  then show ?case by simp
next
  case (Cons x xs)
  show ?case
  proof (cases "build x types")
    case (Inl e)
    then show ?thesis by (simp add: Let_def)
  next
    case (Inr s)
    then show ?thesis using Cons.IH by (simp add: Let_def split: prod.splits option.splits)
  qed
qed

lemma write_rows_good_then_bad:
  assumes "\<forall>row\<in>set good. \<exists>s. build row types = Inr s" and "2 \<le> n"
    and "build bad types = Inl e"
  shows "\<exists>b. write_rows build table cols types (int n) 0 (good @ bad # later) buf
               = (b @ (if length good mod n = 0 then [] else '',\<newline>''), Some e)
           \<and> (if good = [] then b = buf
               else b @ '';\<newline>''
                 = buf @ concat (map (batch_statement (insert_prefix table cols))
                     (batches n (map (\<lambda>row. ''('' @ projr (build row types) @ '')'') good))))"
proof (cases "good = []")
  case True
  then show ?thesis
    using write_rows_abort [where build = build and types = types, OF assms(3),
        of table cols "int n" 0 later buf]
    by simp
next
  case False
  from write_rows_batches [where build = build and types = types and q = 0,
      OF assms(1) assms(2) False, of table cols buf]
  obtain b where b: "write_rows build table cols types (int n) 0 good buf = (b, None)"
    "b @ '';\<newline>''
       = buf @ concat (map (batch_statement (insert_prefix table cols))
           (batches n (map (\<lambda>row. ''('' @ projr (build row types) @ '')'') good)))"
    by auto
  have len: "length good \<noteq> 0" using False by simp
  have n2: "\<not> int n < 2" using assms(2) by simp
  have m: "(int (length good) mod int n = 0) = (length good mod n = 0)"
    by (metis of_nat_eq_0_iff zmod_int)
  have "write_rows build table cols types (int n) 0 (good @ bad # later) buf
          = write_rows build table cols types (int n) (length good) (bad # later) b"
    by (simp add: write_rows_append b(1))
  also have "\<dots> = (if length good mod n = 0 then b else b @ '',\<newline>'', Some e)"
    unfolding write_rows_abort [where build = build and types = types, OF assms(3)]
    using len n2 m by simp
  finally have "write_rows build table cols types (int n) 0 (good @ bad # later) buf
          = (b @ (if length good mod n = 0 then [] else '',\<newline>''), Some e)"
    by simp
  with b(2) False show ?thesis by auto
qed


text \<open>
  Claim C4, as amended.  The claim says that the statement is terminated when the batch
  reaches N rows.  The loop writes the \<open>;\<close> of a batch only together with the prefix of the
  next batch, after the first row of that batch has been formatted; the \<open>;\<close> of the last
  batch is written after the loop.  Let the batch size be at least 2 and let \<open>good\<close> be
  rows that are all formatted.

  If \<open>good\<close> are all the rows of the table and there is at least one, the text between
  \<open>DISABLE KEYS\<close> and \<open>ENABLE KEYS\<close> is one statement per batch of \<open>perDataNumber\<close>
  consecutive rows (the last batch may be shorter): the prefix
  \<open>INSERT INTO `table` (`columns`) VALUES\<close> with the name of the table and its columns,
  the tuple of the first row, a comma and the tuple for each further row of the batch, and
  the terminator \<open>;\<close>.

  If the row after \<open>good\<close> fails to format, \<open>writeTableData\<close> returns its error, and the
  writer holds the same statements but without the last terminator, whether the last
  batch is full or not, followed by a comma when the failing row is not the first of a
  batch.
\<close>

theorem writeTableData_batches:
  assumes "2 \<le> perDataNumber"
    and "\<forall>row\<in>set good. \<exists>s. buildRowData other row (columnTypes rs) = Inr s"
  shows
   "(rows rs = good \<and> good \<noteq> [] \<longrightarrow>
       writeTableData other rs table buf perDataNumber
         = (buf
            @ ''-- ----------------------------\<newline>''
            @ ''-- Records of '' @ table @ ''\<newline>''
            @ ''-- ----------------------------\<newline>''
            @ ''LOCK TABLES `'' @ table @ ''` WRITE;\<newline>''
            @ ''/*!40000 ALTER TABLE `'' @ table @ ''` DISABLE KEYS */;\<newline>''
            @ concat (map (batch_statement
                             (''INSERT INTO `'' @ table @ ''` (`'' @ Join (columns rs) ''`,`''
                                @ ''`) VALUES \<newline>''))
                (batches (nat perDataNumber) (map (row_tuple other (columnTypes rs)) good)))
            @ ''/*!40000 ALTER TABLE `'' @ table @ ''` ENABLE KEYS */;\<newline>''
            @ ''UNLOCK TABLES;\<newline>\<newline>'', None))
    \<and> (\<forall>bad later e.
          rows rs = good @ bad # later \<and> buildRowData other bad (columnTypes rs) = Inl e \<longrightarrow>
          (\<exists>b. writeTableData other rs table buf perDataNumber
                  = (b @ (if length good mod nat perDataNumber = 0 then [] else '',\<newline>''),
                     Some e)
              \<and> (if good = []
                  then b = buf
                         @ ''-- ----------------------------\<newline>''
                         @ ''-- Records of '' @ table @ ''\<newline>''
                         @ ''-- ----------------------------\<newline>''
                         @ ''LOCK TABLES `'' @ table @ ''` WRITE;\<newline>''
                         @ ''/*!40000 ALTER TABLE `'' @ table @ ''` DISABLE KEYS */;\<newline>''
                  else b @ '';\<newline>''
                       = buf
                         @ ''-- ----------------------------\<newline>''
                         @ ''-- Records of '' @ table @ ''\<newline>''
                         @ ''-- ----------------------------\<newline>''
                         @ ''LOCK TABLES `'' @ table @ ''` WRITE;\<newline>''
                         @ ''/*!40000 ALTER TABLE `'' @ table @ ''` DISABLE KEYS */;\<newline>''
                         @ concat (map (batch_statement
                                          (''INSERT INTO `'' @ table @ ''` (`''
                                             @ Join (columns rs) ''`,`'' @ ''`) VALUES \<newline>''))
                             (batches (nat perDataNumber)
                                (map (row_tuple other (columnTypes rs)) good))))))"
proof -
  define n where "n = nat perDataNumber"
  define H where "H = buf @ data_header table"
  define B where "B = concat (map (batch_statement (insert_prefix table (columns rs)))
                        (batches n (map (row_tuple other (columnTypes rs)) good)))"
  have n: "2 \<le> n" "perDataNumber = int n" using assms(1) by (simp_all add: n_def)
  have t: "map (\<lambda>row. ''('' @ projr (buildRowData other row (columnTypes rs)) @ '')'') good
         = map (row_tuple other (columnTypes rs)) good"
    using assms(2) by (auto simp: row_tuple_def)
  have ok: "writeTableData other rs table buf perDataNumber
              = (H @ B @ ''/*!40000 ALTER TABLE `'' @ table @ ''` ENABLE KEYS */;\<newline>''
                   @ ''UNLOCK TABLES;\<newline>\<newline>'', None)"
    if "rows rs = good" "good \<noteq> []"
  proof -
    from write_rows_batches [where build = "buildRowData other" and types = "columnTypes rs"
        and q = 0, OF assms(2) n(1) that(2), of table "columns rs" H]
    obtain b where b: "write_rows (buildRowData other) table (columns rs) (columnTypes rs)
          (int n) 0 good H = (b, None)" "b @ '';\<newline>'' = H @ B"
      unfolding t B_def by auto
    have "writeTableData other rs table buf perDataNumber
            = ((b @ '';\<newline>'') @ ''/*!40000 ALTER TABLE `'' @ table @ ''` ENABLE KEYS */;\<newline>''
                @ ''UNLOCK TABLES;\<newline>\<newline>'', None)"
      using b(1) that(1) by (simp add: writeTableData_def n(2) data_footer_def H_def)
    then show ?thesis unfolding b(2) by simp
  qed
  have bad: "\<exists>b. writeTableData other rs table buf perDataNumber
                  = (b @ (if length good mod n = 0 then [] else '',\<newline>''), Some e)
              \<and> (if good = [] then b = H else b @ '';\<newline>'' = H @ B)"
    if "rows rs = good @ bad # later" "buildRowData other bad (columnTypes rs) = Inl e"
    for bad later e
  proof -
    from write_rows_good_then_bad [where build = "buildRowData other"
        and types = "columnTypes rs", OF assms(2) n(1) that(2), of table "columns rs" later H]
    obtain b where b: "write_rows (buildRowData other) table (columns rs) (columnTypes rs)
          (int n) 0 (good @ bad # later) H
            = (b @ (if length good mod n = 0 then [] else '',\<newline>''), Some e)"
      "if good = [] then b = H else b @ '';\<newline>'' = H @ B"
      unfolding t B_def by auto
    have "writeTableData other rs table buf perDataNumber
            = (b @ (if length good mod n = 0 then [] else '',\<newline>''), Some e)"
      using b(1) that(1) by (simp add: writeTableData_def n(2) H_def)
    with b(2) show ?thesis by blast
  qed
  have H: "H = buf
            @ ''-- ----------------------------\<newline>''
            @ ''-- Records of '' @ table @ ''\<newline>''
            @ ''-- ----------------------------\<newline>''
            @ ''LOCK TABLES `'' @ table @ ''` WRITE;\<newline>''
            @ ''/*!40000 ALTER TABLE `'' @ table @ ''` DISABLE KEYS */;\<newline>''"
    by (simp add: H_def data_header_def)
  have B: "B = concat (map (batch_statement
                             (''INSERT INTO `'' @ table @ ''` (`'' @ Join (columns rs) ''`,`''
                                @ ''`) VALUES \<newline>''))
                (batches (nat perDataNumber) (map (row_tuple other (columnTypes rs)) good)))"
    by (simp add: B_def insert_prefix_def n_def)
  have HB: "H @ B = buf
            @ ''-- ----------------------------\<newline>''
            @ ''-- Records of '' @ table @ ''\<newline>''
            @ ''-- ----------------------------\<newline>''
            @ ''LOCK TABLES `'' @ table @ ''` WRITE;\<newline>''
            @ ''/*!40000 ALTER TABLE `'' @ table @ ''` DISABLE KEYS */;\<newline>''
            @ B"
    unfolding H by simp
  show ?thesis
  proof (intro conjI impI allI)
    assume "rows rs = good \<and> good \<noteq> []"
    then have "writeTableData other rs table buf perDataNumber
              = ((H @ B) @ ''/*!40000 ALTER TABLE `'' @ table @ ''` ENABLE KEYS */;\<newline>''
                   @ ''UNLOCK TABLES;\<newline>\<newline>'', None)"
      using ok by simp
    then show "writeTableData other rs table buf perDataNumber
         = (buf
            @ ''-- ----------------------------\<newline>''
            @ ''-- Records of '' @ table @ ''\<newline>''
            @ ''-- ----------------------------\<newline>''
            @ ''LOCK TABLES `'' @ table @ ''` WRITE;\<newline>''
            @ ''/*!40000 ALTER TABLE `'' @ table @ ''` DISABLE KEYS */;\<newline>''
            @ concat (map (batch_statement
                             (''INSERT INTO `'' @ table @ ''` (`'' @ Join (columns rs) ''`,`''
                                @ ''`) VALUES \<newline>''))
                (batches (nat perDataNumber) (map (row_tuple other (columnTypes rs)) good)))
            @ ''/*!40000 ALTER TABLE `'' @ table @ ''` ENABLE KEYS */;\<newline>''
            @ ''UNLOCK TABLES;\<newline>\<newline>'', None)"
      unfolding HB unfolding B by simp
  next
    fix bad later e
    assume "rows rs = good @ bad # later \<and> buildRowData other bad (columnTypes rs) = Inl e"
    then obtain b where b: "writeTableData other rs table buf perDataNumber
                  = (b @ (if length good mod n = 0 then [] else '',\<newline>''), Some e)"
       "if good = [] then b = H else b @ '';\<newline>'' = H @ B"
      using bad by blast
    show "\<exists>b. writeTableData other rs table buf perDataNumber
                  = (b @ (if length good mod nat perDataNumber = 0 then [] else '',\<newline>''),
                     Some e)
              \<and> (if good = []
                  then b = buf
                         @ ''-- ----------------------------\<newline>''
                         @ ''-- Records of '' @ table @ ''\<newline>''
                         @ ''-- ----------------------------\<newline>''
                         @ ''LOCK TABLES `'' @ table @ ''` WRITE;\<newline>''
                         @ ''/*!40000 ALTER TABLE `'' @ table @ ''` DISABLE KEYS */;\<newline>''
                  else b @ '';\<newline>''
                       = buf
                         @ ''-- ----------------------------\<newline>''
                         @ ''-- Records of '' @ table @ ''\<newline>''
                         @ ''-- ----------------------------\<newline>''
                         @ ''LOCK TABLES `'' @ table @ ''` WRITE;\<newline>''
                         @ ''/*!40000 ALTER TABLE `'' @ table @ ''` DISABLE KEYS */;\<newline>''
                         @ concat (map (batch_statement
                                          (''INSERT INTO `'' @ table @ ''` (`''
                                             @ Join (columns rs) ''`,`'' @ ''`) VALUES \<newline>''))
                             (batches (nat perDataNumber)
                                (map (row_tuple other (columnTypes rs)) good))))"
      using b unfolding HB H B n_def by (intro exI [of _ b]) (simp split: if_splits)
  qed
qed


text \<open>
  The theorem of C4 at a table \<open>users\<close> of two columns with batch size 2: three rows that
  are formatted give one \<open>INSERT\<close> with two tuples and one \<open>INSERT\<close> with one tuple; a
  second row that is not formatted leaves the first statement without its terminator.
\<close>

theorem writeTableData_batches_witness:
  "writeTableData no_other
     \<lparr>columns = [''id'', ''g''], columnTypes = [''INT'', ''GEOMETRY''],
      rows = [[VInt64 1, VNil], [VInt64 2, VNil], [VInt64 3, VNil]]\<rparr> ''users'' [] 2
   = (''-- ----------------------------\<newline>''
      @ ''-- Records of users\<newline>''
      @ ''-- ----------------------------\<newline>''
      @ ''LOCK TABLES `users` WRITE;\<newline>''
      @ ''/*!40000 ALTER TABLE `users` DISABLE KEYS */;\<newline>''
      @ ''INSERT INTO `users` (`id`,`g`) VALUES \<newline>(1,NULL),\<newline>(2,NULL);\<newline>''
      @ ''INSERT INTO `users` (`id`,`g`) VALUES \<newline>(3,NULL);\<newline>''
      @ ''/*!40000 ALTER TABLE `users` ENABLE KEYS */;\<newline>''
      @ ''UNLOCK TABLES;\<newline>\<newline>'', None)
   \<and> (\<exists>b. writeTableData no_other
            \<lparr>columns = [''id'', ''g''], columnTypes = [''INT'', ''GEOMETRY''],
             rows = [[VInt64 1, VNil], [VInt64 2, VBytes ''POINT(1 1)''], [VInt64 3, VNil]]\<rparr>
            ''users'' [] 2
          = (b @ '',\<newline>'', Some (UnsupportedType ''GEOMETRY''))
        \<and> b @ '';\<newline>''
          = ''-- ----------------------------\<newline>''
            @ ''-- Records of users\<newline>''
            @ ''-- ----------------------------\<newline>''
            @ ''LOCK TABLES `users` WRITE;\<newline>''
            @ ''/*!40000 ALTER TABLE `users` DISABLE KEYS */;\<newline>''
            @ ''INSERT INTO `users` (`id`,`g`) VALUES \<newline>(1,NULL);\<newline>'')"
proof -
  let ?types = "[''INT'', ''GEOMETRY'']"
  let ?rs1 = "\<lparr>columns = [''id'', ''g''], columnTypes = ?types,
               rows = [[VInt64 1, VNil], [VInt64 2, VNil], [VInt64 3, VNil]]\<rparr>"
  let ?rs2 = "\<lparr>columns = [''id'', ''g''], columnTypes = ?types,
               rows = [[VInt64 1, VNil], [VInt64 2, VBytes ''POINT(1 1)''], [VInt64 3, VNil]]\<rparr>"
  have h1: "(2::int) \<le> 2" by simp
  have r1: "buildRowData no_other [VInt64 1, VNil] ?types = Inr ''1,NULL''" by code_simp
  have r2: "buildRowData no_other [VInt64 2, VNil] ?types = Inr ''2,NULL''" by code_simp
  have r3: "buildRowData no_other [VInt64 3, VNil] ?types = Inr ''3,NULL''" by code_simp
  have bad: "buildRowData no_other [VInt64 2, VBytes ''POINT(1 1)''] (columnTypes ?rs2)
               = Inl (UnsupportedType ''GEOMETRY'')"
    by code_simp
  have g1: "\<forall>row\<in>set [[VInt64 1, VNil], [VInt64 2, VNil], [VInt64 3, VNil]].
              \<exists>s. buildRowData no_other row (columnTypes ?rs1) = Inr s"
    using r1 r2 r3 by simp
  have g2: "\<forall>row\<in>set [[VInt64 1, VNil]].
              \<exists>s. buildRowData no_other row (columnTypes ?rs2) = Inr s"
    using r1 by simp
  have b3: "batches 2 [x, y, z] = [[x, y], [z]]" for x y z :: string
    by (simp add: batches_Cons batches_Nil)
  have b1: "batches 2 [x] = [[x]]" for x :: string
    by (simp add: batches_Cons batches_Nil)
  have first: "writeTableData no_other ?rs1 ''users'' [] 2
   = (''-- ----------------------------\<newline>''
      @ ''-- Records of users\<newline>''
      @ ''-- ----------------------------\<newline>''
      @ ''LOCK TABLES `users` WRITE;\<newline>''
      @ ''/*!40000 ALTER TABLE `users` DISABLE KEYS */;\<newline>''
      @ ''INSERT INTO `users` (`id`,`g`) VALUES \<newline>(1,NULL),\<newline>(2,NULL);\<newline>''
      @ ''INSERT INTO `users` (`id`,`g`) VALUES \<newline>(3,NULL);\<newline>''
      @ ''/*!40000 ALTER TABLE `users` ENABLE KEYS */;\<newline>''
      @ ''UNLOCK TABLES;\<newline>\<newline>'', None)"
    using writeTableData_batches [OF h1 g1, of "''users''" "[]", THEN conjunct1]
    by (simp add: b3 row_tuple_def r1 r2 r3)
  have second: "\<exists>b. writeTableData no_other ?rs2 ''users'' [] 2
          = (b @ '',\<newline>'', Some (UnsupportedType ''GEOMETRY''))
        \<and> b @ '';\<newline>''
          = ''-- ----------------------------\<newline>''
            @ ''-- Records of users\<newline>''
            @ ''-- ----------------------------\<newline>''
            @ ''LOCK TABLES `users` WRITE;\<newline>''
            @ ''/*!40000 ALTER TABLE `users` DISABLE KEYS */;\<newline>''
            @ ''INSERT INTO `users` (`id`,`g`) VALUES \<newline>(1,NULL);\<newline>''"
    using writeTableData_batches [OF h1 g2, of "''users''" "[]", THEN conjunct2, rule_format,
        of "[VInt64 2, VBytes ''POINT(1 1)'']" "[[VInt64 3, VNil]]"
           "UnsupportedType ''GEOMETRY''"] bad
    by (simp add: b1 row_tuple_def r1)
  from first second show ?thesis by (rule conjI)
qed

text \<open>
  C4 as stated fails: with batch size 2 the first two rows fill a batch, the third row has
  a value of an unsupported type.  The export ends with the error, and the statement of
  the full batch is in the writer without a \<open>;\<close>.
\<close>

theorem writeTableData_full_batch_left_unterminated:
  "writeTableData no_other
     \<lparr>columns = [''id'', ''g''], columnTypes = [''INT'', ''GEOMETRY''],
      rows = [[VInt64 1, VNil], [VInt64 2, VNil], [VInt64 3, VBytes ''POINT(1 1)'']]\<rparr>
     ''users'' [] 2
   = (''-- ----------------------------\<newline>''
      @ ''-- Records of users\<newline>''
      @ ''-- ----------------------------\<newline>''
      @ ''LOCK TABLES `users` WRITE;\<newline>''
      @ ''/*!40000 ALTER TABLE `users` DISABLE KEYS */;\<newline>''
      @ ''INSERT INTO `users` (`id`,`g`) VALUES \<newline>(1,NULL),\<newline>(2,NULL)'',
      Some (UnsupportedType ''GEOMETRY''))"
  by code_simp

end
